theory Spec2Isabelle
  imports Complex_Main
begin

section \<open>Cards, hands and hole cards (poker.py, lines 45-91)\<close>

text \<open>
  The exceptions the Python code can raise: \<open>ValueError\<close> (the two explicit
  \<open>raise\<close> statements, \<open>min\<close> of an empty sequence, \<open>math.comb\<close> on a negative
  argument), \<open>IndexError\<close> (a list read out of range), \<open>KeyError\<close> (a dictionary
  read at a missing key) and \<open>ZeroDivisionError\<close>.
\<close>

datatype error = ValueError | IndexError | KeyError | ZeroDivisionError

text \<open>Class \<open>Card\<close>: two integer attributes. Suits are 1-4, ranks 1-13 (1 = Ace).\<close>

record Card =
  suit :: int
  rank :: int

text \<open>
  Class \<open>Hand\<close>: the card list and the two derived lists, as one call sees them.
  The record holds the three sequences as values; the section on the store below
  models the list object that \<open>self.cards\<close> shares with the caller.
\<close>

record Hand =
  cards :: "Card list"
  ranks :: "int list"
  suits :: "int list"

text \<open>Class \<open>HoleCards\<close>: the same three attributes (field names prefixed).\<close>

record HoleCards =
  hole_cards :: "Card list"
  hole_ranks :: "int list"
  hole_suits :: "int list"

text \<open>\<open>Hand.__init__\<close>: the length check is commented out in the source, so nothing raises.\<close>

definition Hand_init :: "Card list \<Rightarrow> Hand" where
  "Hand_init cs = \<lparr>cards = cs, ranks = map rank cs, suits = map suit cs\<rparr>"

text \<open>\<open>Hand.__len__\<close>.\<close>

definition len :: "Hand \<Rightarrow> nat" where
  "len h = length (cards h)"

text \<open>
  \<open>Hand.add_card\<close>: the outcome of the call together with the hand afterwards.
  The \<open>raise\<close> comes before any of the three appends.
\<close>

definition add_card :: "Hand \<Rightarrow> Card \<Rightarrow> (error + unit) \<times> Hand" where
  "add_card h c =
     (if length (cards h) = 5 then (Inl ValueError, h)
      else (Inr (),
            h\<lparr>cards := cards h @ [c],
              ranks := ranks h @ [rank c],
              suits := suits h @ [suit c]\<rparr>))"

text \<open>The object that lines 89-91 of \<open>HoleCards.__init__\<close> build.\<close>

definition hole_of :: "Card list \<Rightarrow> HoleCards" where
  "hole_of cs = \<lparr>hole_cards = cs, hole_ranks = map rank cs, hole_suits = map suit cs\<rparr>"

text \<open>\<open>HoleCards.__init__\<close>.\<close>

definition HoleCards_init :: "Card list \<Rightarrow> error + HoleCards" where
  "HoleCards_init cs = (if length cs \<noteq> 2 then Inl ValueError else Inr (hole_of cs))"

text \<open>The parallel-sequence invariant, in the words of the specification.\<close>

definition in_sync :: "Card list \<Rightarrow> int list \<Rightarrow> int list \<Rightarrow> bool" where
  "in_sync cs rs ss \<longleftrightarrow>
     length rs = length cs \<and> length ss = length cs \<and>
     (\<forall>i < length cs. rs ! i = rank (cs ! i) \<and> ss ! i = suit (cs ! i))"


section \<open>The store: list objects shared between hands\<close>

text \<open>
  \<open>Hand.__init__\<close> and \<open>HoleCards.__init__\<close> keep the list object they are given
  (\<open>self.cards = cards\<close>, lines 66 and 89) and build two new lists for the ranks and
  the suits; \<open>add_card\<close> appends to all three in place. Two objects built on one list
  therefore share their cards and nothing else. The store maps the address of a
  list object to its contents; an object holds the address of its card list and
  its own ranks and suits.
\<close>

type_synonym ref = nat

record obj =
  cards_ref :: ref
  own_ranks :: "int list"
  own_suits :: "int list"

record state =
  heap :: "ref \<Rightarrow> Card list"
  hands :: "obj list"
  holes :: "obj list"

text \<open>Before any object is built: every list object is empty.\<close>

definition start_state :: state where
  "start_state = \<lparr>heap = (\<lambda>r. []), hands = [], holes = []\<rparr>"

text \<open>\<open>Hand(L)\<close> for the list object at address \<open>r\<close>: a new object, the store as it was.\<close>

definition new_Hand :: "state \<Rightarrow> ref \<Rightarrow> state" where
  "new_Hand s r =
     s\<lparr>hands := hands s @
          [\<lparr>cards_ref = r, own_ranks = map rank (heap s r), own_suits = map suit (heap s r)\<rparr>]\<rparr>"

text \<open>\<open>HoleCards(L)\<close> for the list object at address \<open>r\<close>.\<close>

definition new_HoleCards :: "state \<Rightarrow> ref \<Rightarrow> (error + unit) \<times> state" where
  "new_HoleCards s r =
     (if length (heap s r) \<noteq> 2 then (Inl ValueError, s)
      else (Inr (),
            s\<lparr>holes := holes s @
                 [\<lparr>cards_ref = r, own_ranks = map rank (heap s r),
                   own_suits = map suit (heap s r)\<rparr>]\<rparr>))"

text \<open>
  \<open>h.add_card(card)\<close> for the \<open>i\<close>-th \<open>Hand\<close> object built (\<open>i < length (hands s)\<close>, the
  object exists). The append to \<open>self.cards\<close> changes the list object in the store,
  and with it the cards of every object built on that list.
\<close>

definition add_card_at :: "state \<Rightarrow> nat \<Rightarrow> Card \<Rightarrow> (error + unit) \<times> state" where
  "add_card_at s i c =
     (let h = hands s ! i; r = cards_ref h in
      if length (heap s r) = 5 then (Inl ValueError, s)
      else (Inr (),
            s\<lparr>heap := (heap s)(r := heap s r @ [c]),
              hands := (hands s)[i := h\<lparr>own_ranks := own_ranks h @ [rank c],
                                         own_suits := own_suits h @ [suit c]\<rparr>]\<rparr>))"

text \<open>The three sequences of an object, read through the store.\<close>

definition view :: "state \<Rightarrow> obj \<Rightarrow> Hand" where
  "view s h = \<lparr>cards = heap s (cards_ref h), ranks = own_ranks h, suits = own_suits h\<rparr>"

definition hand_at :: "state \<Rightarrow> nat \<Rightarrow> Hand" where
  "hand_at s i = view s (hands s ! i)"

text \<open>An object whose ranks and suits mirror its cards.\<close>

definition synced :: "state \<Rightarrow> obj \<Rightarrow> bool" where
  "synced s h \<longleftrightarrow> in_sync (heap s (cards_ref h)) (own_ranks h) (own_suits h)"

text \<open>The addresses of the card lists of all objects, one entry for each object.\<close>

definition refs :: "state \<Rightarrow> ref list" where
  "refs s = map cards_ref (hands s) @ map cards_ref (holes s)"

text \<open>
  The states a program reaches with constructor calls and \<open>add_card\<close> calls alone,
  from any contents of the caller's lists. A call that raises leaves the state as
  it returns it.
\<close>

inductive reachable :: "state \<Rightarrow> bool" where
  start: "reachable \<lparr>heap = h0, hands = [], holes = []\<rparr>"
| hand: "reachable s \<Longrightarrow> reachable (new_Hand s r)"
| hole: "reachable s \<Longrightarrow> new_HoleCards s r = (res, s') \<Longrightarrow> reachable s'"
| add: "reachable s \<Longrightarrow> i < length (hands s) \<Longrightarrow> add_card_at s i c = (res, s')
          \<Longrightarrow> reachable s'"


section \<open>Python primitives used by the classifier and the estimators\<close>

text \<open>\<open>min(xs)\<close>: raises \<open>ValueError\<close> on an empty sequence.\<close>

fun py_min :: "int list \<Rightarrow> error + int" where
  "py_min [] = Inl ValueError"
| "py_min (x # xs) = Inr (fold min xs x)"

text \<open>\<open>xs[i]\<close> for an index that comes from \<open>range\<close> (never negative).\<close>

definition py_index :: "'a list \<Rightarrow> nat \<Rightarrow> error + 'a" where
  "py_index xs i = (if i < length xs then Inr (xs ! i) else Inl IndexError)"

text \<open>
  Modelled from the spec: the constant \<open>royal_ranks\<close> of the module \<open>consts\<close>, which
  is not among the sources. The specification gives the royal ranks as 1, 10, 11, 12, 13;
  the classifier compares a sorted rank list with the constant, so it is a list.
\<close>

definition royal_ranks :: "int list" where
  "royal_ranks = [1, 10, 11, 12, 13]"


section \<open>The classifier \<open>hand_rank\<close> (poker.py, lines 99-147)\<close>

text \<open>
  \<open>len(set(xs))\<close> is \<open>length (remdups xs)\<close>, \<open>sorted\<close> is \<open>sort\<close>, \<open>xs.count(x)\<close> is
  \<open>count_list xs x\<close>. The branches are in the order of the source.
\<close>

definition hand_rank :: "Hand \<Rightarrow> error + int" where
  "hand_rank hand =
     (if length (remdups (suits hand)) = 1 then
        (let rs = sort (ranks hand) in
         if rs = [1, 10, 11, 12, 13] then Inr 1
         else (case py_min rs of
                 Inl e \<Rightarrow> Inl e
               | Inr min_rank \<Rightarrow>
                   if map (\<lambda>r. r - min_rank) rs = [0, 1, 2, 3, 4] then Inr 2
                   else Inr 5))
      else if length (remdups (ranks hand)) = 2 then
        (case py_index (ranks hand) 0 of
           Inl e \<Rightarrow> Inl e
         | Inr r0 \<Rightarrow>
             if count_list (ranks hand) r0 = 1 \<or> count_list (ranks hand) r0 = 4 then Inr 3
             else Inr 4)
      else if length (remdups (ranks hand)) = 3 then
        (if list_ex (\<lambda>r. count_list (ranks hand) r = 2) (ranks hand) then Inr 8
         else Inr 7)
      else if length (remdups (ranks hand)) = 4 then Inr 9
      else
        (let rs = sort (ranks hand) in
         case py_min rs of
           Inl e \<Rightarrow> Inl e
         | Inr min_rank \<Rightarrow>
             if map (\<lambda>r. r - min_rank) rs = [0, 1, 2, 3, 4] \<or> rs = royal_ranks then Inr 6
             else Inr 10))"

text \<open>
  "The five ranks, sorted, form a run of five consecutive integers", in the words of
  the specification.
\<close>

definition consecutive5 :: "int list \<Rightarrow> bool" where
  "consecutive5 rs \<longleftrightarrow>
     (case rs of
        [a, b, c, d, e] \<Rightarrow> b = a + 1 \<and> c = a + 2 \<and> d = a + 3 \<and> e = a + 4
      | _ \<Rightarrow> False)"


section \<open>The estimators (poker.py, lines 150-190)\<close>

text \<open>
  \<open>math.comb(n, k)\<close>: \<open>ValueError\<close> on a negative argument, otherwise the binomial
  coefficient (0 when \<open>k > n\<close>).
\<close>

definition comb :: "int \<Rightarrow> int \<Rightarrow> error + int" where
  "comb n k = (if n < 0 \<or> k < 0 then Inl ValueError else Inr (int (nat n choose nat k)))"

text \<open>
  \<open>a / b\<close> on two integers. Python returns the float nearest to the quotient; the
  model keeps the exact quotient, a rational number, and sums exactly.
\<close>

definition py_truediv :: "int \<Rightarrow> int \<Rightarrow> error + rat" where
  "py_truediv a b = (if b = 0 then Inl ZeroDivisionError else Inr (of_int a / of_int b))"

text \<open>
  A dictionary with integer keys and values, in insertion order. \<open>d[k] += 1\<close> raises
  \<open>KeyError\<close> when \<open>k\<close> is not a key and keeps the order of the keys otherwise.
\<close>

type_synonym dict = "(int \<times> int) list"

definition dict_incr :: "dict \<Rightarrow> int \<Rightarrow> error + dict" where
  "dict_incr d k =
     (if k \<in> fst ` set d
      then Inr (map (\<lambda>(k', v). if k' = k then (k', v + 1) else (k', v)) d)
      else Inl KeyError)"

definition dict_values :: "dict \<Rightarrow> int list" where
  "dict_values d = map snd d"

text \<open>
  The counting loops of \<open>royal_probability\<close> (lines 154-159), over the indices
  \<open>js\<close> of \<open>range(...)\<close>:
  \<^verbatim>\<open>if ranks[i] in royal_ranks: royal_suits[suits[i]] += 1\<close>
\<close>

fun royal_count :: "int list \<Rightarrow> int list \<Rightarrow> nat list \<Rightarrow> dict \<Rightarrow> error + dict" where
  "royal_count rs ss [] d = Inr d"
| "royal_count rs ss (i # js) d =
     (case py_index rs i of
        Inl e \<Rightarrow> Inl e
      | Inr r \<Rightarrow>
          if r \<in> set royal_ranks then
            (case py_index ss i of
               Inl e \<Rightarrow> Inl e
             | Inr s \<Rightarrow>
                 (case dict_incr d s of
                    Inl e \<Rightarrow> Inl e
                  | Inr d' \<Rightarrow> royal_count rs ss js d'))
          else royal_count rs ss js d)"

text \<open>The summing loop of \<open>royal_probability\<close> (lines 162-169), over the values of the dictionary.\<close>

fun royal_sum :: "int \<Rightarrow> int list \<Rightarrow> rat \<Rightarrow> error + rat" where
  "royal_sum board_len [] probability = Inr probability"
| "royal_sum board_len (royals # rest) probability =
     (if royals \<ge> board_len then
        (case comb (52 - (board_len + 2 + 5 - royals)) (5 - board_len - (5 - royals)) of
           Inl e \<Rightarrow> Inl e
         | Inr a \<Rightarrow>
             (case comb (52 - (board_len + 2)) (5 - board_len) of
                Inl e \<Rightarrow> Inl e
              | Inr b \<Rightarrow>
                  (case py_truediv a b of
                     Inl e \<Rightarrow> Inl e
                   | Inr q \<Rightarrow> royal_sum board_len rest (probability + q))))
      else royal_sum board_len rest probability)"

definition royal_probability :: "Hand \<Rightarrow> HoleCards \<Rightarrow> error + rat" where
  "royal_probability board hole =
     (let royal_suits = [(1, 0), (2, 0), (3, 0), (4, 0)];
          board_len = len board
      in case royal_count (ranks board) (suits board) [0 ..< board_len] royal_suits of
           Inl e \<Rightarrow> Inl e
         | Inr d1 \<Rightarrow>
             (case royal_count (hole_ranks hole) (hole_suits hole) [0 ..< 2] d1 of
                Inl e \<Rightarrow> Inl e
              | Inr d2 \<Rightarrow> royal_sum (int board_len) (dict_values d2) 0))"

text \<open>
  The counting loops of \<open>quads_prob\<close> (lines 177-180):
  \<^verbatim>\<open>ranks[hand.ranks[i]] += 1\<close>
\<close>

fun quads_count :: "int list \<Rightarrow> nat list \<Rightarrow> dict \<Rightarrow> error + dict" where
  "quads_count rs [] d = Inr d"
| "quads_count rs (i # js) d =
     (case py_index rs i of
        Inl e \<Rightarrow> Inl e
      | Inr r \<Rightarrow>
          (case dict_incr d r of
             Inl e \<Rightarrow> Inl e
           | Inr d' \<Rightarrow> quads_count rs js d'))"

text \<open>The summing loop of \<open>quads_prob\<close> (lines 182-189).\<close>

fun quads_sum :: "int \<Rightarrow> int list \<Rightarrow> rat \<Rightarrow> error + rat" where
  "quads_sum board_len [] probability = Inr probability"
| "quads_sum board_len (count # rest) probability =
     (if 4 - count \<le> 5 - board_len then
        (case comb (52 - (board_len + 2 + 4 - count)) (5 - board_len - (4 - count)) of
           Inl e \<Rightarrow> Inl e
         | Inr a \<Rightarrow>
             (case comb (52 - (board_len + 2)) (5 - board_len) of
                Inl e \<Rightarrow> Inl e
              | Inr b \<Rightarrow>
                  (case py_truediv a b of
                     Inl e \<Rightarrow> Inl e
                   | Inr q \<Rightarrow> quads_sum board_len rest (probability + q))))
      else quads_sum board_len rest probability)"

definition quads_prob :: "Hand \<Rightarrow> HoleCards \<Rightarrow> error + rat" where
  "quads_prob board hole =
     (let rank_counts = [(1, 0), (2, 0), (3, 0), (4, 0), (5, 0), (6, 0), (7, 0),
                         (8, 0), (9, 0), (10, 0), (11, 0), (12, 0), (13, 0)];
          board_len = len board
      in case quads_count (ranks board) [0 ..< board_len] rank_counts of
           Inl e \<Rightarrow> Inl e
         | Inr d1 \<Rightarrow>
             (case quads_count (hole_ranks hole) [0 ..< 2] d1 of
                Inl e \<Rightarrow> Inl e
              | Inr d2 \<Rightarrow> quads_sum (int board_len) (dict_values d2) 0))"


section \<open>The formulae of the specification\<close>

text \<open>
  The number of visible royal-rank cards (rank in 1, 10, 11, 12, 13) of suit \<open>s\<close>
  among the cards \<open>cs\<close>.
\<close>

definition royals_in :: "Card list \<Rightarrow> int \<Rightarrow> int" where
  "royals_in cs s = int (length (filter (\<lambda>c. rank c \<in> {1, 10, 11, 12, 13} \<and> suit c = s) cs))"

text \<open>
  The contribution of one suit with \<open>royals\<close> visible royal cards:
  \<open>C(52 - known - (5 - royals), (5 - board_len) - (5 - royals)) / C(52 - known, 5 - board_len)\<close>
  with \<open>known = board_len + 2\<close> when \<open>royals \<ge> board_len\<close>, and 0 otherwise.
\<close>

definition royal_term :: "int \<Rightarrow> int \<Rightarrow> rat" where
  "royal_term board_len royals =
     (let known = board_len + 2 in
      if royals \<ge> board_len
      then of_nat (nat (52 - known - (5 - royals)) choose nat ((5 - board_len) - (5 - royals)))
           / of_nat (nat (52 - known) choose nat (5 - board_len))
      else 0)"

definition royal_formula :: "Card list \<Rightarrow> Card list \<Rightarrow> rat" where
  "royal_formula board hole =
     sum_list (map (\<lambda>s. royal_term (int (length board)) (royals_in (board @ hole) s))
                   [1, 2, 3, 4])"

text \<open>The number of visible cards of rank \<open>k\<close> among the cards \<open>cs\<close>.\<close>

definition rank_count :: "Card list \<Rightarrow> int \<Rightarrow> int" where
  "rank_count cs k = int (length (filter (\<lambda>c. rank c = k) cs))"

text \<open>
  The contribution of one rank seen \<open>count\<close> times:
  \<open>C(52 - known - (4 - count), (5 - board_len) - (4 - count)) / C(52 - known, 5 - board_len)\<close>
  when \<open>4 - count \<le> 5 - board_len\<close>, and 0 otherwise.
\<close>

definition quads_term :: "int \<Rightarrow> int \<Rightarrow> rat" where
  "quads_term board_len count =
     (let known = board_len + 2 in
      if 4 - count \<le> 5 - board_len
      then of_nat (nat (52 - known - (4 - count)) choose nat ((5 - board_len) - (4 - count)))
           / of_nat (nat (52 - known) choose nat (5 - board_len))
      else 0)"

definition quads_formula :: "Card list \<Rightarrow> Card list \<Rightarrow> rat" where
  "quads_formula board hole =
     sum_list (map (\<lambda>k. quads_term (int (length board)) (rank_count (board @ hole) k))
                   [1, 2, 3, 4, 5, 6, 7, 8, 9, 10, 11, 12, 13])"

text \<open>A card of the standard deck: suit 1-4 and rank 1-13.\<close>

definition valid_card :: "Card \<Rightarrow> bool" where
  "valid_card c \<longleftrightarrow> 1 \<le> suit c \<and> suit c \<le> 4 \<and> 1 \<le> rank c \<and> rank c \<le> 13"


section \<open>Hands and hole cards: size errors and the parallel sequences\<close>

lemma in_sync_Hand_init: "in_sync cs (map rank cs) (map suit cs)"
  by (simp add: in_sync_def)

lemma in_sync_snoc:
  assumes "in_sync cs rs ss"
  shows "in_sync (cs @ [c]) (rs @ [rank c]) (ss @ [suit c])"
  using assms by (auto simp: in_sync_def nth_append)

lemma add_card_in_sync:
  assumes "in_sync (cards h) (ranks h) (suits h)" and "add_card h c = (r, h')"
  shows "in_sync (cards h') (ranks h') (suits h')"
  using assms by (auto simp: add_card_def in_sync_snoc split: if_splits)

text \<open>
  Claim C8. Building \<open>HoleCards\<close> from a list whose length is not 2 fails with an
  error. \<open>add_card\<close> on a hand that holds 5 cards fails with an error and leaves the
  hand (cards, ranks and suits) as it was; on a hand with fewer than 5 cards it
  succeeds and appends the card, its rank and its suit.
\<close>

theorem C8_size_errors:
  "(length cs \<noteq> 2 \<longrightarrow> HoleCards_init cs = Inl ValueError) \<and>
   (length (cards h) = 5 \<longrightarrow> add_card h c = (Inl ValueError, h)) \<and>
   (length (cards g) < 5 \<longrightarrow>
      add_card g c = (Inr (), g\<lparr>cards := cards g @ [c], ranks := ranks g @ [rank c],
                                 suits := suits g @ [suit c]\<rparr>))"
  by (simp add: HoleCards_init_def add_card_def)

text \<open>The three cases of C8 on concrete hands.\<close>

theorem C8_size_errors_witness:
  "HoleCards_init [\<lparr>suit = 1, rank = 1\<rparr>] = Inl ValueError \<and>
   add_card (Hand_init [\<lparr>suit = 1, rank = 1\<rparr>, \<lparr>suit = 1, rank = 2\<rparr>, \<lparr>suit = 1, rank = 3\<rparr>,
                        \<lparr>suit = 1, rank = 4\<rparr>, \<lparr>suit = 1, rank = 5\<rparr>]) \<lparr>suit = 2, rank = 9\<rparr>
     = (Inl ValueError,
        Hand_init [\<lparr>suit = 1, rank = 1\<rparr>, \<lparr>suit = 1, rank = 2\<rparr>, \<lparr>suit = 1, rank = 3\<rparr>,
                   \<lparr>suit = 1, rank = 4\<rparr>, \<lparr>suit = 1, rank = 5\<rparr>]) \<and>
   add_card (Hand_init [\<lparr>suit = 1, rank = 1\<rparr>]) \<lparr>suit = 2, rank = 9\<rparr>
     = (Inr (), Hand_init [\<lparr>suit = 1, rank = 1\<rparr>, \<lparr>suit = 2, rank = 9\<rparr>])"
  using C8_size_errors [of "[\<lparr>suit = 1, rank = 1\<rparr>]"
      "Hand_init [\<lparr>suit = 1, rank = 1\<rparr>, \<lparr>suit = 1, rank = 2\<rparr>, \<lparr>suit = 1, rank = 3\<rparr>,
                  \<lparr>suit = 1, rank = 4\<rparr>, \<lparr>suit = 1, rank = 5\<rparr>]"
      "\<lparr>suit = 2, rank = 9\<rparr>" "Hand_init [\<lparr>suit = 1, rank = 1\<rparr>]"]
  by (simp add: Hand_init_def)

subsection \<open>The store and the hand as one call sees it\<close>

lemma new_Hand_view:
  "hand_at (new_Hand s r) (length (hands s)) = Hand_init (heap s r)"
  by (simp add: hand_at_def view_def new_Hand_def Hand_init_def)

lemma add_card_at_view:
  assumes "i < length (hands s)"
  shows "fst (add_card_at s i c) = fst (add_card (hand_at s i) c)"
    and "hand_at (snd (add_card_at s i c)) i = snd (add_card (hand_at s i) c)"
  using assms
  by (simp_all add: add_card_at_def add_card_def hand_at_def view_def Let_def)

lemma new_HoleCards_view:
  "fst (new_HoleCards s r) = Inr () \<longleftrightarrow> HoleCards_init (heap s r) = Inr (hole_of (heap s r))"
  by (simp add: new_HoleCards_def HoleCards_init_def)

subsection \<open>Construction and a call on the hand itself\<close>

lemma new_Hand_synced: "synced (new_Hand s r) (last (hands (new_Hand s r)))"
  by (simp add: new_Hand_def synced_def in_sync_Hand_init)

lemma new_HoleCards_synced:
  assumes "new_HoleCards s r = (Inr (), s')"
  shows "synced s' (last (holes s'))"
  using assms
  by (auto simp: new_HoleCards_def synced_def in_sync_Hand_init split: if_splits)

lemma add_card_at_synced:
  assumes "i < length (hands s)" and "synced s (hands s ! i)"
    and "add_card_at s i c = (res, s')"
  shows "synced s' (hands s' ! i)"
  using assms
  by (auto simp: add_card_at_def synced_def Let_def in_sync_snoc split: if_splits)

subsection \<open>Objects that share no list\<close>

lemma refs_new_Hand: "refs (new_Hand s r) = map cards_ref (hands s) @ r # map cards_ref (holes s)"
  by (simp add: refs_def new_Hand_def)

lemma refs_add_card_at:
  assumes "i < length (hands s)"
  shows "refs (snd (add_card_at s i c)) = refs s"
  using assms
  by (auto simp: add_card_at_def refs_def Let_def map_update list_update_same_conv)

lemma all_synced_new_Hand:
  assumes "\<forall>h\<in>set (hands s) \<union> set (holes s). synced s h"
  shows "\<forall>h\<in>set (hands (new_Hand s r)) \<union> set (holes (new_Hand s r)). synced (new_Hand s r) h"
proof -
  have "synced (new_Hand s r) h = synced s h" for h
    by (simp add: synced_def new_Hand_def)
  moreover have "synced s \<lparr>cards_ref = r, own_ranks = map rank (heap s r),
      own_suits = map suit (heap s r)\<rparr>"
    by (simp add: synced_def in_sync_Hand_init)
  ultimately show ?thesis
    using assms by (auto simp: new_Hand_def)
qed

lemma all_synced_new_HoleCards:
  assumes "\<forall>h\<in>set (hands s) \<union> set (holes s). synced s h"
    and "new_HoleCards s r = (res, s')"
  shows "\<forall>h\<in>set (hands s') \<union> set (holes s'). synced s' h"
proof (cases "length (heap s r) = 2")
  case False
  with assms show ?thesis by (simp add: new_HoleCards_def)
next
  case True
  with assms(2) have s': "s' = s\<lparr>holes := holes s @
      [\<lparr>cards_ref = r, own_ranks = map rank (heap s r), own_suits = map suit (heap s r)\<rparr>]\<rparr>"
    by (simp add: new_HoleCards_def)
  have "synced s' h = synced s h" for h
    by (simp add: synced_def s')
  moreover have "synced s \<lparr>cards_ref = r, own_ranks = map rank (heap s r),
      own_suits = map suit (heap s r)\<rparr>"
    by (simp add: synced_def in_sync_Hand_init)
  ultimately show ?thesis
    using assms(1) by (auto simp: s')
qed

lemma all_synced_add_card_at:
  assumes all: "\<forall>h\<in>set (hands s) \<union> set (holes s). synced s h"
    and i: "i < length (hands s)" and d: "distinct (refs s)"
    and call: "add_card_at s i c = (res, s')"
  shows "\<forall>h\<in>set (hands s') \<union> set (holes s'). synced s' h"
proof (cases "length (heap s (cards_ref (hands s ! i))) = 5")
  case True
  with call have "s' = s" by (simp add: add_card_at_def Let_def)
  with all show ?thesis by simp
next
  case False
  define r where "r = cards_ref (hands s ! i)"
  define h' where "h' = (hands s ! i)\<lparr>own_ranks := own_ranks (hands s ! i) @ [rank c],
      own_suits := own_suits (hands s ! i) @ [suit c]\<rparr>"
  from False call have s': "s' = s\<lparr>heap := (heap s)(r := heap s r @ [c]),
      hands := (hands s)[i := h']\<rparr>"
    by (simp add: add_card_at_def Let_def r_def h'_def)
  have hp: "heap s' = (heap s)(r := heap s r @ [c])"
    and hs: "hands s' = (hands s)[i := h']" and ho: "holes s' = holes s"
    by (simp_all add: s')
  have dh: "distinct (map cards_ref (hands s))"
    and disj: "set (map cards_ref (hands s)) \<inter> set (map cards_ref (holes s)) = {}"
    using d by (simp_all add: refs_def)
  have unchanged: "synced s' h" if "synced s h" and "cards_ref h \<noteq> r" for h
    using that by (simp add: synced_def hp)
  have called: "synced s' h'"
  proof -
    from all i have "in_sync (heap s r) (own_ranks (hands s ! i)) (own_suits (hands s ! i))"
      by (simp add: synced_def r_def)
    then have "in_sync (heap s r @ [c]) (own_ranks (hands s ! i) @ [rank c])
        (own_suits (hands s ! i) @ [suit c])"
      by (rule in_sync_snoc)
    then show ?thesis
      by (simp add: synced_def hp h'_def r_def)
  qed
  show ?thesis
  proof
    fix h assume "h \<in> set (hands s') \<union> set (holes s')"
    then consider (hand) "h \<in> set (hands s')" | (hole) "h \<in> set (holes s')"
      by blast
    then show "synced s' h"
    proof cases
      case hand
      then obtain j where j: "j < length (hands s')" "h = hands s' ! j"
        by (metis in_set_conv_nth)
      then have jl: "j < length (hands s)" by (simp add: hs)
      show ?thesis
      proof (cases "j = i")
        case True
        with j i called show ?thesis by (simp add: hs)
      next
        case False
        with j have h: "h = hands s ! j" by (simp add: hs)
        from dh jl i False have "map cards_ref (hands s) ! j \<noteq> map cards_ref (hands s) ! i"
          by (metis length_map nth_eq_iff_index_eq)
        with jl i h have "cards_ref h \<noteq> r" by (simp add: r_def)
        moreover from all jl h have "synced s h" by simp
        ultimately show ?thesis by (intro unchanged)
      qed
    next
      case hole
      then have h: "h \<in> set (holes s)" by (simp add: ho)
      from i have "r \<in> set (map cards_ref (hands s))" by (simp add: r_def)
      moreover from h have "cards_ref h \<in> set (map cards_ref (holes s))" by simp
      ultimately have "cards_ref h \<noteq> r" using disj by blast
      moreover from all h have "synced s h" by simp
      ultimately show ?thesis by (intro unchanged)
    qed
  qed
qed

lemma refs_new_HoleCards:
  assumes "new_HoleCards s r = (res, s')"
  shows "refs s' = (if length (heap s r) = 2 then refs s @ [r] else refs s)"
  using assms by (auto simp: refs_def new_HoleCards_def split: if_splits)

lemma refs_grow:
  shows "distinct (refs (new_Hand s r)) \<Longrightarrow> distinct (refs s)"
    and "new_HoleCards s r = (res, s') \<Longrightarrow> distinct (refs s') \<Longrightarrow> distinct (refs s)"
proof -
  show "distinct (refs (new_Hand s r)) \<Longrightarrow> distinct (refs s)"
  proof -
    assume "distinct (refs (new_Hand s r))"
    then have "distinct (map cards_ref (hands s) @ r # map cards_ref (holes s))"
      by (simp only: refs_new_Hand)
    then show "distinct (refs s)"
      by (auto simp: refs_def)
  qed
  show "new_HoleCards s r = (res, s') \<Longrightarrow> distinct (refs s') \<Longrightarrow> distinct (refs s)"
    using refs_new_HoleCards [of s r res s'] by (simp split: if_splits)
qed

lemma reachable_synced:
  assumes "reachable s" and "distinct (refs s)"
  shows "\<forall>h\<in>set (hands s) \<union> set (holes s). synced s h"
  using assms
proof (induction rule: reachable.induct)
  case (start h0)
  show ?case by simp
next
  case (hand s r)
  from hand.prems have "distinct (refs s)" by (rule refs_grow(1))
  with hand.IH show ?case by (intro all_synced_new_Hand) simp
next
  case (hole s r res s')
  from hole.hyps(2) hole.prems have "distinct (refs s)" by (rule refs_grow(2))
  with hole.IH hole.hyps(2) show ?case by (intro all_synced_new_HoleCards [of s r res s']) simp_all
next
  case (add s i c res s')
  from add.hyps(3) have s': "s' = snd (add_card_at s i c)" by simp
  with add.prems refs_add_card_at [OF add.hyps(2), of c] have d: "distinct (refs s)" by simp
  with add.IH have "\<forall>h\<in>set (hands s) \<union> set (holes s). synced s h" by simp
  then show ?case using add.hyps(2) d add.hyps(3) by (rule all_synced_add_card_at)
qed

subsection \<open>Two runs from the empty store\<close>

lemma shared_run:
  defines "A \<equiv> \<lparr>suit = 1, rank = 1\<rparr>" and "N \<equiv> \<lparr>suit = 2, rank = 9\<rparr>"
  defines "e \<equiv> \<lparr>cards_ref = 0, own_ranks = [], own_suits = []\<rparr>"
  shows "new_Hand (new_Hand start_state 0) 0 = \<lparr>heap = (\<lambda>r. []), hands = [e, e], holes = []\<rparr>"
    and "add_card_at \<lparr>heap = (\<lambda>r. []), hands = [e, e], holes = []\<rparr> 0 A
          = (Inr (), \<lparr>heap = (\<lambda>r. [])(0 := [A]),
                      hands = [\<lparr>cards_ref = 0, own_ranks = [1], own_suits = [1]\<rparr>, e],
                      holes = []\<rparr>)"
    and "add_card_at \<lparr>heap = (\<lambda>r. [])(0 := [A]),
                      hands = [\<lparr>cards_ref = 0, own_ranks = [1], own_suits = [1]\<rparr>, e],
                      holes = []\<rparr> 1 N
          = (Inr (), \<lparr>heap = (\<lambda>r. [])(0 := [A, N]),
                      hands = [\<lparr>cards_ref = 0, own_ranks = [1], own_suits = [1]\<rparr>,
                               \<lparr>cards_ref = 0, own_ranks = [9], own_suits = [2]\<rparr>],
                      holes = []\<rparr>)"
  by (simp_all add: new_Hand_def start_state_def add_card_at_def Let_def A_def N_def e_def)

lemma single_run:
  defines "S \<equiv> \<lparr>suit = 3, rank = 7\<rparr>" and "K \<equiv> \<lparr>suit = 4, rank = 13\<rparr>"
  shows "new_Hand start_state 0
          = \<lparr>heap = (\<lambda>r. []), hands = [\<lparr>cards_ref = 0, own_ranks = [], own_suits = []\<rparr>],
             holes = []\<rparr>"
    and "add_card_at \<lparr>heap = (\<lambda>r. []),
                      hands = [\<lparr>cards_ref = 0, own_ranks = [], own_suits = []\<rparr>], holes = []\<rparr> 0 S
          = (Inr (), \<lparr>heap = (\<lambda>r. [])(0 := [S]),
                      hands = [\<lparr>cards_ref = 0, own_ranks = [7], own_suits = [3]\<rparr>],
                      holes = []\<rparr>)"
    and "add_card_at \<lparr>heap = (\<lambda>r. [])(0 := [S]),
                      hands = [\<lparr>cards_ref = 0, own_ranks = [7], own_suits = [3]\<rparr>],
                      holes = []\<rparr> 0 K
          = (Inr (), \<lparr>heap = (\<lambda>r. [])(0 := [S, K]),
                      hands = [\<lparr>cards_ref = 0, own_ranks = [7, 13], own_suits = [3, 4]\<rparr>],
                      holes = []\<rparr>)"
  by (simp_all add: new_Hand_def start_state_def add_card_at_def Let_def S_def K_def)

lemma reachable_start_state: "reachable start_state"
  unfolding start_state_def by (rule reachable.start)

text \<open>
  Claim C9 says that the ranks and the suits mirror the cards after construction and
  after every successful \<open>add_card\<close>. They do not when two hands are built on one
  list: \<open>L = []; h1 = Hand(L); h2 = Hand(L); h1.add_card(Ace of Hearts);
  h2.add_card(9 of Diamonds)\<close>. Both calls succeed, and after its own successful
  \<open>add_card\<close> the second hand holds two cards, one rank and one suit.
\<close>

theorem C9_shared_list_counterexample:
  "reachable (snd (add_card_at (snd (add_card_at (new_Hand (new_Hand start_state 0) 0) 0
       \<lparr>suit = 1, rank = 1\<rparr>)) 1 \<lparr>suit = 2, rank = 9\<rparr>)) \<and>
   fst (add_card_at (snd (add_card_at (new_Hand (new_Hand start_state 0) 0) 0
       \<lparr>suit = 1, rank = 1\<rparr>)) 1 \<lparr>suit = 2, rank = 9\<rparr>) = Inr () \<and>
   hand_at (snd (add_card_at (snd (add_card_at (new_Hand (new_Hand start_state 0) 0) 0
       \<lparr>suit = 1, rank = 1\<rparr>)) 1 \<lparr>suit = 2, rank = 9\<rparr>)) 1
     = \<lparr>cards = [\<lparr>suit = 1, rank = 1\<rparr>, \<lparr>suit = 2, rank = 9\<rparr>], ranks = [9], suits = [2]\<rparr> \<and>
   \<not> in_sync [\<lparr>suit = 1, rank = 1\<rparr>, \<lparr>suit = 2, rank = 9\<rparr>] [9] [2]"
proof -
  define s2 where "s2 = new_Hand (new_Hand start_state 0) 0"
  define s3 where "s3 = snd (add_card_at s2 0 \<lparr>suit = 1, rank = 1\<rparr>)"
  define s4 where "s4 = snd (add_card_at s3 1 \<lparr>suit = 2, rank = 9\<rparr>)"
  have c3: "add_card_at s2 0 \<lparr>suit = 1, rank = 1\<rparr> = (Inr (), s3)"
    unfolding s3_def unfolding s2_def shared_run(1) shared_run(2) by simp
  have e3: "s3 = \<lparr>heap = (\<lambda>r. [])(0 := [\<lparr>suit = 1, rank = 1\<rparr>]),
      hands = [\<lparr>cards_ref = 0, own_ranks = [1], own_suits = [1]\<rparr>,
               \<lparr>cards_ref = 0, own_ranks = [], own_suits = []\<rparr>],
      holes = []\<rparr>"
    unfolding s3_def s2_def shared_run(1) shared_run(2) by simp
  have c4: "add_card_at s3 1 \<lparr>suit = 2, rank = 9\<rparr> = (Inr (), s4)"
    unfolding s4_def unfolding e3 shared_run(3) by simp
  have e4: "s4 = \<lparr>heap = (\<lambda>r. [])(0 := [\<lparr>suit = 1, rank = 1\<rparr>, \<lparr>suit = 2, rank = 9\<rparr>]),
      hands = [\<lparr>cards_ref = 0, own_ranks = [1], own_suits = [1]\<rparr>,
               \<lparr>cards_ref = 0, own_ranks = [9], own_suits = [2]\<rparr>],
      holes = []\<rparr>"
    unfolding s4_def e3 shared_run(3) by simp
  have l2: "0 < length (hands s2)"
    unfolding s2_def shared_run(1) by simp
  have l3: "1 < length (hands s3)"
    unfolding e3 by simp
  have "reachable s2"
    unfolding s2_def by (intro reachable.hand reachable_start_state)
  from this l2 c3 have "reachable s3"
    by (rule reachable.add)
  from this l3 c4 have r4: "reachable s4"
    by (rule reachable.add)
  have f4: "fst (add_card_at s3 1 \<lparr>suit = 2, rank = 9\<rparr>) = Inr ()"
    by (simp only: c4 fst_conv)
  have v4: "hand_at s4 1
      = \<lparr>cards = [\<lparr>suit = 1, rank = 1\<rparr>, \<lparr>suit = 2, rank = 9\<rparr>], ranks = [9], suits = [2]\<rparr>"
    unfolding e4 by (simp add: hand_at_def view_def)
  have n: "\<not> in_sync [\<lparr>suit = 1, rank = 1\<rparr>, \<lparr>suit = 2, rank = 9\<rparr>] [9] [2]"
    by (simp add: in_sync_def)
  from r4 f4 v4 n show ?thesis
    unfolding s4_def s3_def s2_def by (intro conjI)
qed

text \<open>
  Claim C9, amended. Right after its construction a \<open>Hand\<close> or a \<open>HoleCards\<close> has
  ranks and suits that mirror its cards; a successful \<open>add_card\<close> on a hand that
  mirrored its cards before the call leaves it so; and in every state reached by
  constructor and \<open>add_card\<close> calls in which no two objects are built on the same
  list object, every \<open>Hand\<close> and every \<open>HoleCards\<close> mirrors its cards.
\<close>

theorem C9_parallel_sequences:
  "synced (new_Hand s r) (last (hands (new_Hand s r))) \<and>
   (new_HoleCards s r = (Inr (), s1) \<longrightarrow> synced s1 (last (holes s1))) \<and>
   (i < length (hands t) \<and> synced t (hands t ! i) \<and> add_card_at t i c = (Inr (), t1)
      \<longrightarrow> synced t1 (hands t1 ! i)) \<and>
   (reachable u \<and> distinct (refs u) \<longrightarrow> (\<forall>h\<in>set (hands u) \<union> set (holes u). synced u h))"
proof (intro conjI impI)
  show "synced (new_Hand s r) (last (hands (new_Hand s r)))"
    by (rule new_Hand_synced)
next
  assume "new_HoleCards s r = (Inr (), s1)"
  then show "synced s1 (last (holes s1))"
    by (rule new_HoleCards_synced)
next
  assume a: "i < length (hands t) \<and> synced t (hands t ! i) \<and> add_card_at t i c = (Inr (), t1)"
  then have "i < length (hands t)" and "synced t (hands t ! i)"
    and "add_card_at t i c = (Inr (), t1)"
    by simp_all
  then show "synced t1 (hands t1 ! i)"
    by (rule add_card_at_synced)
next
  assume "reachable u \<and> distinct (refs u)"
  then have "reachable u" and "distinct (refs u)"
    by simp_all
  then show "\<forall>h\<in>set (hands u) \<union> set (holes u). synced u h"
    by (rule reachable_synced)
qed

text \<open>
  The amended C9 on one hand built on an empty list and extended by the 7 of Spades
  and the King of Clubs.
\<close>

theorem C9_parallel_sequences_witness:
  "reachable (snd (add_card_at (snd (add_card_at (new_Hand start_state 0) 0
       \<lparr>suit = 3, rank = 7\<rparr>)) 0 \<lparr>suit = 4, rank = 13\<rparr>)) \<and>
   distinct (refs (snd (add_card_at (snd (add_card_at (new_Hand start_state 0) 0
       \<lparr>suit = 3, rank = 7\<rparr>)) 0 \<lparr>suit = 4, rank = 13\<rparr>))) \<and>
   hand_at (snd (add_card_at (snd (add_card_at (new_Hand start_state 0) 0
       \<lparr>suit = 3, rank = 7\<rparr>)) 0 \<lparr>suit = 4, rank = 13\<rparr>)) 0
     = \<lparr>cards = [\<lparr>suit = 3, rank = 7\<rparr>, \<lparr>suit = 4, rank = 13\<rparr>], ranks = [7, 13], suits = [3, 4]\<rparr> \<and>
   in_sync [\<lparr>suit = 3, rank = 7\<rparr>, \<lparr>suit = 4, rank = 13\<rparr>] [7, 13] [3, 4]"
proof -
  define s1 where "s1 = new_Hand start_state 0"
  define s2 where "s2 = snd (add_card_at s1 0 \<lparr>suit = 3, rank = 7\<rparr>)"
  define s3 where "s3 = snd (add_card_at s2 0 \<lparr>suit = 4, rank = 13\<rparr>)"
  have c2: "add_card_at s1 0 \<lparr>suit = 3, rank = 7\<rparr> = (Inr (), s2)"
    unfolding s2_def unfolding s1_def single_run(1) single_run(2) by simp
  have e2: "s2 = \<lparr>heap = (\<lambda>r. [])(0 := [\<lparr>suit = 3, rank = 7\<rparr>]),
      hands = [\<lparr>cards_ref = 0, own_ranks = [7], own_suits = [3]\<rparr>], holes = []\<rparr>"
    unfolding s2_def s1_def single_run(1) single_run(2) by simp
  have c3: "add_card_at s2 0 \<lparr>suit = 4, rank = 13\<rparr> = (Inr (), s3)"
    unfolding s3_def unfolding e2 single_run(3) by simp
  have e3: "s3 = \<lparr>heap = (\<lambda>r. [])(0 := [\<lparr>suit = 3, rank = 7\<rparr>, \<lparr>suit = 4, rank = 13\<rparr>]),
      hands = [\<lparr>cards_ref = 0, own_ranks = [7, 13], own_suits = [3, 4]\<rparr>], holes = []\<rparr>"
    unfolding s3_def e2 single_run(3) by simp
  have l1: "0 < length (hands s1)"
    unfolding s1_def single_run(1) by simp
  have l2: "0 < length (hands s2)"
    unfolding e2 by simp
  have "reachable s1"
    unfolding s1_def by (intro reachable.hand reachable_start_state)
  from this l1 c2 have "reachable s2"
    by (rule reachable.add)
  from this l2 c3 have r3: "reachable s3"
    by (rule reachable.add)
  have d3: "distinct (refs s3)"
    unfolding e3 by (simp add: refs_def)
  from C9_parallel_sequences [of _ _ _ _ _ _ _ s3] r3 d3
  have "\<forall>h\<in>set (hands s3) \<union> set (holes s3). synced s3 h"
    by blast
  then have "synced s3 \<lparr>cards_ref = 0, own_ranks = [7, 13], own_suits = [3, 4]\<rparr>"
    unfolding e3 by simp
  then have sync: "in_sync [\<lparr>suit = 3, rank = 7\<rparr>, \<lparr>suit = 4, rank = 13\<rparr>] [7, 13] [3, 4]"
    unfolding e3 by (simp add: synced_def)
  have v3: "hand_at s3 0
      = \<lparr>cards = [\<lparr>suit = 3, rank = 7\<rparr>, \<lparr>suit = 4, rank = 13\<rparr>], ranks = [7, 13], suits = [3, 4]\<rparr>"
    unfolding e3 by (simp add: hand_at_def view_def)
  from r3 d3 v3 sync show ?thesis
    unfolding s3_def s2_def s1_def by (intro conjI)
qed

text \<open>
  Claim C10. \<open>Hand(cards)\<close> does not check the size: for a list of any length the hand
  holds exactly that list. The cap lives in \<open>add_card\<close> alone, which fails exactly when
  the hand holds 5 cards.
\<close>

theorem C10_no_size_check_in_constructor:
  "cards (Hand_init cs) = cs \<and> length (cards (Hand_init cs)) = length cs \<and>
   ((\<exists>h'. add_card h c = (Inl ValueError, h')) \<longleftrightarrow> length (cards h) = 5)"
  by (auto simp: Hand_init_def add_card_def)


section \<open>The classifier\<close>

lemma py_min_Inl_iff: "py_min xs = Inl e \<longleftrightarrow> xs = [] \<and> e = ValueError"
  by (cases xs) auto

lemma sort_eq_Nil_iff: "sort xs = [] \<longleftrightarrow> xs = []"
  by (metis length_sort length_0_conv)

lemma length5_cases:
  assumes "length xs = 5"
  obtains a b c d e where "xs = [a, b, c, d, e]"
  using assms by (auto simp: length_Suc_conv numeral_eq_Suc)

lemma run_test_iff:
  "(case py_min [a, b, c, d, e] of Inl x \<Rightarrow> False
    | Inr m \<Rightarrow> map (\<lambda>r. r - m) [a, b, c, d, e] = [0, 1, 2, 3, 4])
   \<longleftrightarrow> consecutive5 [a, b, c, d, e]"
  by (auto simp: consecutive5_def min_def)

lemma one_suit_remdups:
  assumes "xs \<noteq> []" and "\<forall>x\<in>set xs. x = s"
  shows "length (remdups xs) = 1"
proof -
  from assms have "set xs = {s}" by (cases xs) auto
  then show ?thesis by (simp add: length_remdups_card_conv)
qed

lemma two_suits_remdups:
  assumes "a \<in> set xs" and "b \<in> set xs" and "a \<noteq> b"
  shows "length (remdups xs) \<noteq> 1"
proof
  assume "length (remdups xs) = 1"
  then have "card (set xs) = 1" by (simp add: length_remdups_card_conv)
  then obtain z where "set xs = {z}" by (auto simp: card_1_singleton_iff)
  with assms show False by auto
qed

text \<open>
  Claim C5. A 5-card hand whose cards share one suit is ranked 1 when the sorted ranks
  are 1, 10, 11, 12, 13; otherwise 2 when the sorted ranks are five consecutive
  integers; otherwise 5. No condition is put on the ranks: the suit test comes first,
  whatever the multiplicities of the ranks are.
\<close>

theorem C5_single_suit:
  assumes "length cs = 5" and "\<forall>c\<in>set cs. suit c = s"
  shows "hand_rank (Hand_init cs) =
           Inr (if sort (map rank cs) = [1, 10, 11, 12, 13] then 1
                else if consecutive5 (sort (map rank cs)) then 2
                else 5)"
proof -
  from assms have "map suit cs \<noteq> []" and "\<forall>x\<in>set (map suit cs). x = s"
    by auto
  then have one: "length (remdups (map suit cs)) = 1"
    by (rule one_suit_remdups)
  have "length (sort (map rank cs)) = 5"
    using assms(1) by simp
  then obtain a b c d e where rs: "sort (map rank cs) = [a, b, c, d, e]"
    by (rule length5_cases)
  show ?thesis
    using run_test_iff [of a b c d e]
    by (simp add: hand_rank_def Hand_init_def one rs Let_def split: sum.splits)
qed

text \<open>
  C5 on the clubs 7, 5, 9, 6, 8, a straight flush, and on five hearts of which four
  are a 3: ranked 5 by the suit test, before the rank counts are looked at.
\<close>

theorem C5_single_suit_witness:
  "hand_rank (Hand_init [\<lparr>suit = 4, rank = 7\<rparr>, \<lparr>suit = 4, rank = 5\<rparr>, \<lparr>suit = 4, rank = 9\<rparr>,
                         \<lparr>suit = 4, rank = 6\<rparr>, \<lparr>suit = 4, rank = 8\<rparr>]) = Inr 2 \<and>
   hand_rank (Hand_init [\<lparr>suit = 1, rank = 3\<rparr>, \<lparr>suit = 1, rank = 3\<rparr>, \<lparr>suit = 1, rank = 3\<rparr>,
                         \<lparr>suit = 1, rank = 3\<rparr>, \<lparr>suit = 1, rank = 8\<rparr>]) = Inr 5"
  using C5_single_suit [of "[\<lparr>suit = 4, rank = 7\<rparr>, \<lparr>suit = 4, rank = 5\<rparr>, \<lparr>suit = 4, rank = 9\<rparr>,
                         \<lparr>suit = 4, rank = 6\<rparr>, \<lparr>suit = 4, rank = 8\<rparr>]" 4]
    C5_single_suit [of "[\<lparr>suit = 1, rank = 3\<rparr>, \<lparr>suit = 1, rank = 3\<rparr>, \<lparr>suit = 1, rank = 3\<rparr>,
                         \<lparr>suit = 1, rank = 3\<rparr>, \<lparr>suit = 1, rank = 8\<rparr>]" 1]
  by (simp add: consecutive5_def)

text \<open>
  Claim C6. A 5-card hand with at least two suits and five distinct ranks is ranked 6
  when the sorted ranks are five consecutive integers or equal \<open>royal_ranks\<close>, and 10
  otherwise; a hand with the ranks 1, 2, 3, 4, 5 is ranked 6.
\<close>

theorem C6_straight_or_high_card:
  assumes "length cs = 5"
    and "\<exists>c\<in>set cs. \<exists>c'\<in>set cs. suit c \<noteq> suit c'"
    and "distinct (map rank cs)"
  shows "hand_rank (Hand_init cs) =
           Inr (if consecutive5 (sort (map rank cs)) \<or> sort (map rank cs) = [1, 10, 11, 12, 13]
                then 6 else 10)
         \<and> (set (map rank cs) = {1, 2, 3, 4, 5} \<longrightarrow> hand_rank (Hand_init cs) = Inr 6)"
proof -
  from assms(2) obtain sa sb where "sa \<in> set (map suit cs)" "sb \<in> set (map suit cs)"
      "sa \<noteq> sb"
    by auto
  then have suits: "length (remdups (map suit cs)) \<noteq> 1"
    by (rule two_suits_remdups)
  have five: "length (remdups (map rank cs)) = 5"
    using assms(1,3) by (simp add: distinct_remdups_id)
  have "length (sort (map rank cs)) = 5"
    using assms(1) by simp
  then obtain a b c d e where rs: "sort (map rank cs) = [a, b, c, d, e]"
    by (rule length5_cases)
  have main: "hand_rank (Hand_init cs) =
           Inr (if consecutive5 (sort (map rank cs)) \<or> sort (map rank cs) = [1, 10, 11, 12, 13]
                then 6 else 10)"
    using run_test_iff [of a b c d e] suits
    by (simp add: hand_rank_def Hand_init_def five rs Let_def royal_ranks_def
        split: sum.splits)
  have low: "hand_rank (Hand_init cs) = Inr 6" if "set (map rank cs) = {1, 2, 3, 4, 5}"
  proof -
    have "sort (map rank cs) = [1, 2, 3, 4, 5]"
    proof (rule sorted_distinct_set_unique)
      show "set (sort (map rank cs)) = set [1, 2, 3, 4, 5 :: int]"
        using that by simp
    qed (use assms(3) in simp_all)
    with main show ?thesis by (simp add: consecutive5_def)
  qed
  from main low show ?thesis by blast
qed

text \<open>C6 on the ace-low straight in mixed suits.\<close>

theorem C6_straight_or_high_card_witness:
  "hand_rank (Hand_init [\<lparr>suit = 1, rank = 1\<rparr>, \<lparr>suit = 2, rank = 2\<rparr>, \<lparr>suit = 3, rank = 3\<rparr>,
                         \<lparr>suit = 4, rank = 4\<rparr>, \<lparr>suit = 1, rank = 5\<rparr>]) = Inr 6"
proof -
  let ?cs = "[\<lparr>suit = 1, rank = 1\<rparr>, \<lparr>suit = 2, rank = 2\<rparr>, \<lparr>suit = 3, rank = 3\<rparr>,
              \<lparr>suit = 4, rank = 4\<rparr>, \<lparr>suit = 1, rank = 5\<rparr>]"
  have len: "length ?cs = 5" by simp
  have two: "\<exists>c\<in>set ?cs. \<exists>c'\<in>set ?cs. suit c \<noteq> suit c'"
    by (rule bexI [where x = "\<lparr>suit = 1, rank = 1\<rparr>"],
        rule bexI [where x = "\<lparr>suit = 2, rank = 2\<rparr>"]) simp_all
  have dist: "distinct (map rank ?cs)" by simp
  show ?thesis
    using C6_straight_or_high_card [OF len two dist] by (simp add: consecutive5_def)
qed

text \<open>
  Claim C7 says that \<open>hand_rank\<close> rejects a hand whose length is not 5. The source has
  no such check: the hand of the single card Ace of Hearts is ranked 5 (Flush).
\<close>

theorem C7_short_hand_counterexample:
  "hand_rank (Hand_init [\<lparr>suit = 1, rank = 1\<rparr>]) = Inr 5"
  by (simp add: hand_rank_def Hand_init_def)

text \<open>
  Claim C7, amended. \<open>hand_rank\<close> does not check the length of the hand. It fails, with
  the \<open>ValueError\<close> of \<open>min\<close>, on the empty hand only; on every other hand, of whatever
  length, it returns a category code between 1 and 10.
\<close>

theorem C7_no_length_check:
  "(cs = [] \<longrightarrow> hand_rank (Hand_init cs) = Inl ValueError) \<and>
   (cs \<noteq> [] \<longrightarrow> (\<exists>k. hand_rank (Hand_init cs) = Inr k \<and> 1 \<le> k \<and> k \<le> 10))"
proof (intro conjI impI)
  assume "cs = []"
  then show "hand_rank (Hand_init cs) = Inl ValueError"
    by (simp add: hand_rank_def Hand_init_def)
next
  assume ne: "cs \<noteq> []"
  then have "sort (map rank cs) \<noteq> []"
    by (simp add: sort_eq_Nil_iff)
  then obtain m where m: "py_min (sort (map rank cs)) = Inr m"
    by (cases "py_min (sort (map rank cs))") (auto simp: py_min_Inl_iff)
  from ne have i: "py_index (map rank cs) 0 = Inr (rank (hd cs))"
    by (cases cs) (auto simp: py_index_def)
  show "\<exists>k. hand_rank (Hand_init cs) = Inr k \<and> 1 \<le> k \<and> k \<le> 10"
    by (simp add: hand_rank_def Hand_init_def Let_def m i)
qed

text \<open>The amended C7 on the empty hand and on a hand of two cards.\<close>

theorem C7_no_length_check_witness:
  "hand_rank (Hand_init []) = Inl ValueError \<and>
   (\<exists>k. hand_rank (Hand_init [\<lparr>suit = 1, rank = 1\<rparr>, \<lparr>suit = 2, rank = 1\<rparr>]) = Inr k
        \<and> 1 \<le> k \<and> k \<le> 10)"
  using C7_no_length_check [of "[]"]
    C7_no_length_check [of "[\<lparr>suit = 1, rank = 1\<rparr>, \<lparr>suit = 2, rank = 1\<rparr>]"]
  by simp


section \<open>The estimators\<close>

subsection \<open>Dictionaries with a fixed key list\<close>

lemma dict_incr_table:
  assumes "k \<in> set ks"
  shows "dict_incr (map (\<lambda>j. (j, f j)) ks) k = Inr (map (\<lambda>j. (j, (f(k := f k + 1)) j)) ks)"
  using assms by (auto simp: dict_incr_def image_iff)

lemma dict_values_table: "dict_values (map (\<lambda>j. (j, f j)) ks) = map f ks"
  by (simp add: dict_values_def comp_def)

lemma count_by_index:
  "length (filter (\<lambda>j. P (xs ! j)) [0 ..< length xs]) = length (filter P xs)"
proof -
  have "filter P xs = filter P (map ((!) xs) [0 ..< length xs])"
    by (simp add: map_nth)
  also have "\<dots> = map ((!) xs) (filter (\<lambda>j. P (xs ! j)) [0 ..< length xs])"
    by (simp add: filter_map comp_def)
  finally show ?thesis by simp
qed

subsection \<open>The counting loops\<close>

lemma royal_count_table:
  assumes "\<forall>j\<in>set js. j < length rs \<and> j < length ss \<and> (rs ! j \<in> set royal_ranks \<longrightarrow> ss ! j \<in> set ks)"
  shows "royal_count rs ss js (map (\<lambda>k. (k, f k)) ks) =
           Inr (map (\<lambda>k. (k, f k + int (length (filter (\<lambda>j. rs ! j \<in> set royal_ranks \<and> ss ! j = k) js)))) ks)"
  using assms
proof (induction js arbitrary: f)
  case Nil
  show ?case by simp
next
  case (Cons i js)
  then have i: "i < length rs" "i < length ss"
    and rest: "\<forall>j\<in>set js. j < length rs \<and> j < length ss \<and> (rs ! j \<in> set royal_ranks \<longrightarrow> ss ! j \<in> set ks)"
    by auto
  show ?case
  proof (cases "rs ! i \<in> set royal_ranks")
    case True
    with Cons.prems have "ss ! i \<in> set ks" by simp
    then show ?thesis
      using True i by (simp add: py_index_def dict_incr_table Cons.IH [OF rest])
  next
    case False
    then show ?thesis
      using i by (simp add: py_index_def Cons.IH [OF rest])
  qed
qed

lemma quads_count_table:
  assumes "\<forall>j\<in>set js. j < length rs \<and> rs ! j \<in> set ks"
  shows "quads_count rs js (map (\<lambda>k. (k, f k)) ks) =
           Inr (map (\<lambda>k. (k, f k + int (length (filter (\<lambda>j. rs ! j = k) js)))) ks)"
  using assms
proof (induction js arbitrary: f)
  case Nil
  show ?case by simp
next
  case (Cons i js)
  then have i: "i < length rs" "rs ! i \<in> set ks"
    and rest: "\<forall>j\<in>set js. j < length rs \<and> rs ! j \<in> set ks"
    by auto
  show ?case
    using i by (simp add: py_index_def dict_incr_table Cons.IH [OF rest])
qed

lemma royal_count_cards:
  assumes "\<forall>c\<in>set cs. suit c \<in> {1, 2, 3, 4}"
  shows "royal_count (map rank cs) (map suit cs) [0 ..< length cs] (map (\<lambda>k. (k, f k)) [1, 2, 3, 4]) =
           Inr (map (\<lambda>k. (k, f k + royals_in cs k)) [1, 2, 3, 4])"
proof -
  have idx: "\<forall>j\<in>set [0 ..< length cs]. j < length (map rank cs) \<and> j < length (map suit cs) \<and>
      (map rank cs ! j \<in> set royal_ranks \<longrightarrow> map suit cs ! j \<in> set [1, 2, 3, 4])"
    using assms by simp
  have cnt: "length (filter (\<lambda>j. map rank cs ! j \<in> set royal_ranks \<and> map suit cs ! j = k) [0 ..< length cs])
      = length (filter (\<lambda>c. rank c \<in> {1, 10, 11, 12, 13} \<and> suit c = k) cs)" for k
  proof -
    have "filter (\<lambda>j. map rank cs ! j \<in> set royal_ranks \<and> map suit cs ! j = k) [0 ..< length cs]
        = filter (\<lambda>j. (\<lambda>c. rank c \<in> {1, 10, 11, 12, 13} \<and> suit c = k) (cs ! j)) [0 ..< length cs]"
      by (rule filter_cong) (simp_all add: royal_ranks_def)
    then show ?thesis
      using count_by_index [of "\<lambda>c. rank c \<in> {1, 10, 11, 12, 13} \<and> suit c = k" cs] by simp
  qed
  show ?thesis
    unfolding royal_count_table [OF idx] royals_in_def cnt ..
qed

lemma rank_cases:
  "1 \<le> (x::int) \<Longrightarrow> x \<le> 13 \<Longrightarrow>
   x = 1 \<or> x = 2 \<or> x = 3 \<or> x = 4 \<or> x = 5 \<or> x = 6 \<or> x = 7 \<or> x = 8 \<or> x = 9 \<or> x = 10 \<or> x = 11
     \<or> x = 12 \<or> x = 13"
  by arith

lemma rank_keys: "set [1, 2, 3, 4, 5, 6, 7, 8, 9, 10, 11, 12, 13] = {1 .. 13 :: int}"
proof (intro set_eqI iffI)
  fix x :: int
  assume "x \<in> set [1, 2, 3, 4, 5, 6, 7, 8, 9, 10, 11, 12, 13]"
  then show "x \<in> {1 .. 13}" by auto
next
  fix x :: int
  assume "x \<in> {1 .. 13}"
  then have "1 \<le> x" "x \<le> 13" by simp_all
  from rank_cases [OF this] show "x \<in> set [1, 2, 3, 4, 5, 6, 7, 8, 9, 10, 11, 12, 13]"
    by (simp only: list.set insert_iff empty_iff simp_thms)
qed

lemma quads_count_cards:
  assumes "\<forall>c\<in>set cs. rank c \<in> {1 .. 13}"
  shows "quads_count (map rank cs) [0 ..< length cs]
            (map (\<lambda>k. (k, f k)) [1, 2, 3, 4, 5, 6, 7, 8, 9, 10, 11, 12, 13]) =
           Inr (map (\<lambda>k. (k, f k + rank_count cs k)) [1, 2, 3, 4, 5, 6, 7, 8, 9, 10, 11, 12, 13])"
proof -
  have keys: "set [1, 2, 3, 4, 5, 6, 7, 8, 9, 10, 11, 12, 13] = {1 .. 13 :: int}"
    by (rule rank_keys)
  have idx: "\<forall>j\<in>set [0 ..< length cs]. j < length (map rank cs) \<and>
      map rank cs ! j \<in> set [1, 2, 3, 4, 5, 6, 7, 8, 9, 10, 11, 12, 13]"
    unfolding keys using assms by simp
  have cnt: "length (filter (\<lambda>j. map rank cs ! j = k) [0 ..< length cs])
      = length (filter (\<lambda>c. rank c = k) cs)" for k
  proof -
    have "filter (\<lambda>j. map rank cs ! j = k) [0 ..< length cs]
        = filter (\<lambda>j. (\<lambda>c. rank c = k) (cs ! j)) [0 ..< length cs]"
      by (rule filter_cong) simp_all
    then show ?thesis
      using count_by_index [of "\<lambda>c. rank c = k" cs] by simp
  qed
  show ?thesis
    unfolding quads_count_table [OF idx] rank_count_def cnt ..
qed

subsection \<open>The summing loops\<close>

lemma denominator_pos:
  assumes "0 \<le> bl" and "bl \<le> 5"
  shows "0 < (nat (52 - (bl + 2)) choose nat (5 - bl))"
  using assms by (intro zero_less_binomial) simp

lemma royal_step:
  assumes "0 \<le> bl" and "bl \<le> 5" and "bl \<le> r"
  shows "(case comb (52 - (bl + 2 + 5 - r)) (5 - bl - (5 - r)) of
            Inl e \<Rightarrow> Inl e
          | Inr a \<Rightarrow>
              (case comb (52 - (bl + 2)) (5 - bl) of
                 Inl e \<Rightarrow> Inl e
               | Inr b \<Rightarrow>
                   (case py_truediv a b of
                      Inl e \<Rightarrow> Inl e
                    | Inr q \<Rightarrow> K q)))
         = K (royal_term bl r)"
  using assms denominator_pos [OF assms(1,2)]
  by (simp add: comb_def py_truediv_def royal_term_def Let_def)

lemma royal_sum_eq:
  assumes "0 \<le> bl" and "bl \<le> 5"
  shows "royal_sum bl vs p = Inr (p + sum_list (map (royal_term bl) vs))"
proof (induction vs arbitrary: p)
  case Nil
  show ?case by simp
next
  case (Cons r vs)
  show ?case
  proof (cases "bl \<le> r")
    case True
    have "royal_sum bl (r # vs) p = royal_sum bl vs (p + royal_term bl r)"
      by (simp only: royal_sum.simps True if_True royal_step [OF assms True])
    then show ?thesis
      by (simp add: Cons.IH)
  next
    case False
    then show ?thesis
      by (simp add: Cons.IH royal_term_def)
  qed
qed

lemma quads_step:
  assumes "0 \<le> bl" and "bl \<le> 5" and "4 - c \<le> 5 - bl"
  shows "(case comb (52 - (bl + 2 + 4 - c)) (5 - bl - (4 - c)) of
            Inl e \<Rightarrow> Inl e
          | Inr a \<Rightarrow>
              (case comb (52 - (bl + 2)) (5 - bl) of
                 Inl e \<Rightarrow> Inl e
               | Inr b \<Rightarrow>
                   (case py_truediv a b of
                      Inl e \<Rightarrow> Inl e
                    | Inr q \<Rightarrow> K q)))
         = K (quads_term bl c)"
  using assms denominator_pos [OF assms(1,2)]
  by (simp add: comb_def py_truediv_def quads_term_def Let_def)

lemma quads_sum_eq:
  assumes "0 \<le> bl" and "bl \<le> 5"
  shows "quads_sum bl vs p = Inr (p + sum_list (map (quads_term bl) vs))"
proof (induction vs arbitrary: p)
  case Nil
  show ?case by simp
next
  case (Cons c vs)
  show ?case
  proof (cases "4 - c \<le> 5 - bl")
    case True
    have "quads_sum bl (c # vs) p = quads_sum bl vs (p + quads_term bl c)"
      by (simp only: quads_sum.simps True if_True quads_step [OF assms True])
    then show ?thesis
      by (simp add: Cons.IH)
  next
    case False
    then show ?thesis
      by (simp add: Cons.IH quads_term_def)
  qed
qed

subsection \<open>The estimators compute the formulae\<close>

lemma royals_in_append: "royals_in (xs @ ys) s = royals_in xs s + royals_in ys s"
  by (simp add: royals_in_def)

lemma rank_count_append: "rank_count (xs @ ys) k = rank_count xs k + rank_count ys k"
  by (simp add: rank_count_def)

lemma royal_probability_eq:
  assumes "length board \<le> 5" and "length hole = 2"
    and "\<forall>c\<in>set (board @ hole). suit c \<in> {1, 2, 3, 4}"
  shows "royal_probability (Hand_init board) (hole_of hole) = Inr (royal_formula board hole)"
proof -
  have b: "\<forall>c\<in>set board. suit c \<in> {1, 2, 3, 4}" and h: "\<forall>c\<in>set hole. suit c \<in> {1, 2, 3, 4}"
    using assms(3) by auto
  have init: "[(1, 0), (2, 0), (3, 0), (4, 0)] = map (\<lambda>k. (k, (\<lambda>_. 0::int) k)) [1, 2, 3, 4 :: int]"
    by simp
  have c1: "royal_count (map rank board) (map suit board) [0 ..< length board]
              [(1, 0), (2, 0), (3, 0), (4, 0)]
            = Inr (map (\<lambda>k. (k, royals_in board k)) [1, 2, 3, 4])"
    unfolding init royal_count_cards [OF b] by simp
  have c2: "royal_count (map rank hole) (map suit hole) [0 ..< 2]
              (map (\<lambda>k. (k, royals_in board k)) [1, 2, 3, 4])
            = Inr (map (\<lambda>k. (k, royals_in (board @ hole) k)) [1, 2, 3, 4])"
    using royal_count_cards [OF h, of "royals_in board"] assms(2)
    by (simp add: royals_in_append)
  have s: "royal_sum (int (length board)) (map (\<lambda>k. royals_in (board @ hole) k) [1, 2, 3, 4]) 0
            = Inr (royal_formula board hole)"
  proof -
    have "0 \<le> int (length board)" and "int (length board) \<le> 5"
      using assms(1) by simp_all
    from royal_sum_eq [OF this] show ?thesis
      by (simp only: royal_formula_def map_map comp_def add_0_left)
  qed
  have v: "dict_values (map (\<lambda>k. (k, royals_in (board @ hole) k)) [1, 2, 3, 4])
      = map (\<lambda>k. royals_in (board @ hole) k) [1, 2, 3, 4]"
    by (rule dict_values_table)
  have sel: "ranks (Hand_init board) = map rank board" "suits (Hand_init board) = map suit board"
    "len (Hand_init board) = length board"
    "hole_ranks (hole_of hole) = map rank hole" "hole_suits (hole_of hole) = map suit hole"
    by (simp_all add: Hand_init_def hole_of_def len_def)
  show ?thesis
    unfolding royal_probability_def Let_def sel c1 c2 sum.case v s ..
qed

lemma quads_prob_eq:
  assumes "length board \<le> 5" and "length hole = 2"
    and "\<forall>c\<in>set (board @ hole). rank c \<in> {1 .. 13}"
  shows "quads_prob (Hand_init board) (hole_of hole) = Inr (quads_formula board hole)"
proof -
  let ?ks = "[1, 2, 3, 4, 5, 6, 7, 8, 9, 10, 11, 12, 13 :: int]"
  have b: "\<forall>c\<in>set board. rank c \<in> {1 .. 13}" and h: "\<forall>c\<in>set hole. rank c \<in> {1 .. 13}"
    using assms(3) by auto
  have init: "[(1, 0), (2, 0), (3, 0), (4, 0), (5, 0), (6, 0), (7, 0),
               (8, 0), (9, 0), (10, 0), (11, 0), (12, 0), (13, 0)]
      = map (\<lambda>k. (k, (\<lambda>_. 0::int) k)) ?ks"
    by simp
  have c1: "quads_count (map rank board) [0 ..< length board]
              [(1, 0), (2, 0), (3, 0), (4, 0), (5, 0), (6, 0), (7, 0),
               (8, 0), (9, 0), (10, 0), (11, 0), (12, 0), (13, 0)]
            = Inr (map (\<lambda>k. (k, rank_count board k)) ?ks)"
    unfolding init quads_count_cards [OF b] by simp
  have c2: "quads_count (map rank hole) [0 ..< 2] (map (\<lambda>k. (k, rank_count board k)) ?ks)
            = Inr (map (\<lambda>k. (k, rank_count (board @ hole) k)) ?ks)"
    using quads_count_cards [OF h, of "rank_count board"] assms(2)
    by (simp add: rank_count_append)
  have s: "quads_sum (int (length board)) (map (\<lambda>k. rank_count (board @ hole) k) ?ks) 0
            = Inr (quads_formula board hole)"
  proof -
    have "0 \<le> int (length board)" and "int (length board) \<le> 5"
      using assms(1) by simp_all
    from quads_sum_eq [OF this] show ?thesis
      by (simp only: quads_formula_def map_map comp_def add_0_left)
  qed
  have v: "dict_values (map (\<lambda>k. (k, rank_count (board @ hole) k)) ?ks)
      = map (\<lambda>k. rank_count (board @ hole) k) ?ks"
    by (rule dict_values_table)
  have sel: "ranks (Hand_init board) = map rank board"
    "len (Hand_init board) = length board"
    "hole_ranks (hole_of hole) = map rank hole"
    by (simp_all add: Hand_init_def hole_of_def len_def)
  show ?thesis
    unfolding quads_prob_def Let_def sel c1 c2 sum.case v s ..
qed

subsection \<open>Binomial coefficients that occur\<close>

lemma choose_step:
  assumes "0 < k"
  shows "n choose k = (n * ((n - 1) choose (k - 1))) div k"
proof -
  from assms obtain j where k: "k = Suc j"
    by (cases k) auto
  have "Suc j * (n choose Suc j) = n * ((n - 1) choose j)"
    by (rule binomial_absorption)
  then have "(n * ((n - 1) choose j)) div Suc j = (Suc j * (n choose Suc j)) div Suc j"
    by simp
  also have "\<dots> = n choose Suc j"
    by (rule nonzero_mult_div_cancel_left) simp
  finally show ?thesis
    by (simp add: k)
qed

lemma choose_46_1: "(46::nat) choose 1 = 46"
  by simp

lemma choose_47_2: "(47::nat) choose 2 = 1081"
  by (simp add: choose_two)

lemma choose_48_3: "(48::nat) choose 3 = 17296"
  using choose_step [of 3 48] by (simp add: choose_47_2)

lemma choose_49_4: "(49::nat) choose 4 = 211876"
  using choose_step [of 4 49] by (simp add: choose_48_3)

lemma choose_50_5: "(50::nat) choose 5 = 2118760"
  using choose_step [of 5 50] by (simp add: choose_49_4)

lemma choose_47_2_Suc: "(47::nat) choose Suc (Suc 0) = 1081"
  using choose_47_2 by (simp only: numeral_2_eq_2)

lemmas choose_values =
  choose_46_1 choose_47_2 choose_47_2_Suc choose_48_3 choose_49_4 choose_50_5

lemma small_int_cases:
  assumes "0 \<le> (b::int)" and "b \<le> 5"
  shows "b = 0 \<or> b = 1 \<or> b = 2 \<or> b = 3 \<or> b = 4 \<or> b = 5"
  using assms by arith

lemma royal_term_nonneg: "0 \<le> royal_term bl r"
  by (simp add: royal_term_def Let_def)

lemma quads_term_nonneg: "0 \<le> quads_term bl c"
  by (simp add: quads_term_def Let_def)

lemma royal_term_zero: "r < bl \<Longrightarrow> royal_term bl r = 0"
  by (simp add: royal_term_def Let_def)

lemma quads_term_zero: "c < bl - 1 \<Longrightarrow> quads_term bl c = 0"
  by (simp add: quads_term_def Let_def)

lemma royal_term_full:
  assumes "0 \<le> bl" and "bl \<le> 5"
  shows "royal_term bl 5 = 1"
  using denominator_pos [OF assms] assms by (simp add: royal_term_def Let_def)

lemma quads_term_full:
  assumes "0 \<le> bl" and "bl \<le> 5"
  shows "quads_term bl 4 = 1"
  using denominator_pos [OF assms] assms by (simp add: quads_term_def Let_def)

lemma royal_term_small:
  assumes "0 \<le> bl" and "bl \<le> 5" and "0 \<le> r" and "r \<le> 4"
  shows "royal_term bl r \<le> 1 / 4"
proof -
  have r: "r = 0 \<or> r = 1 \<or> r = 2 \<or> r = 3 \<or> r = 4"
    using assms(3,4) by arith
  from small_int_cases [OF assms(1,2)] r show ?thesis
    by (elim disjE) (simp_all add: royal_term_def Let_def choose_values)
qed

lemma quads_term_small:
  assumes "0 \<le> bl" and "bl \<le> 5" and "0 \<le> c" and "c \<le> 3"
  shows "quads_term bl c \<le> (1 + of_int c) / 20"
proof -
  have c: "c = 0 \<or> c = 1 \<or> c = 2 \<or> c = 3"
    using assms(3,4) by arith
  from small_int_cases [OF assms(1,2)] c show ?thesis
    by (elim disjE) (simp_all add: quads_term_def Let_def choose_values)
qed

subsection \<open>Counting visible cards\<close>

lemma Card_eq_iff: "(c :: Card) = c' \<longleftrightarrow> suit c = suit c' \<and> rank c = rank c'"
  by auto

lemma length_le_card:
  assumes "distinct ys" and "inj_on g (set ys)" and "g ` set ys \<subseteq> S" and "finite S"
  shows "length ys \<le> card S"
proof -
  have "length ys = card (set ys)"
    using assms(1) by (simp add: distinct_card)
  also have "\<dots> = card (g ` set ys)"
    using assms(2) by (simp add: card_image)
  also have "\<dots> \<le> card S"
    using assms(3,4) by (rule card_mono [rotated])
  finally show ?thesis .
qed

lemma royals_in_le_5:
  assumes "distinct cs"
  shows "royals_in cs s \<le> 5"
proof -
  let ?ys = "filter (\<lambda>c. rank c \<in> {1, 10, 11, 12, 13} \<and> suit c = s) cs"
  have "length ?ys \<le> card {1, 10, 11, 12, 13 :: int}"
  proof (rule length_le_card)
    show "distinct ?ys" using assms by simp
    show "inj_on rank (set ?ys)" by (auto simp: inj_on_def Card_eq_iff)
    show "rank ` set ?ys \<subseteq> {1, 10, 11, 12, 13}" by auto
  qed simp
  then show ?thesis by (simp add: royals_in_def)
qed

lemma rank_count_le_4:
  assumes "distinct cs" and "\<forall>c\<in>set cs. suit c \<in> {1, 2, 3, 4}"
  shows "rank_count cs k \<le> 4"
proof -
  let ?ys = "filter (\<lambda>c. rank c = k) cs"
  have "length ?ys \<le> card {1, 2, 3, 4 :: int}"
  proof (rule length_le_card)
    show "distinct ?ys" using assms(1) by simp
    show "inj_on suit (set ?ys)" by (auto simp: inj_on_def Card_eq_iff)
    show "suit ` set ?ys \<subseteq> {1, 2, 3, 4}" using assms(2) by auto
  qed simp
  then show ?thesis by (simp add: rank_count_def)
qed

lemma count_partition:
  assumes "distinct ks"
  shows "(\<Sum>k\<leftarrow>ks. int (length (filter (\<lambda>x. P x \<and> f x = k) xs))) \<le> int (length xs)"
  using assms
proof (induction ks arbitrary: xs)
  case Nil
  show ?case by simp
next
  case (Cons k ks)
  let ?rest = "filter (\<lambda>x. f x \<noteq> k) xs"
  have same: "length (filter (\<lambda>x. P x \<and> f x = k') xs) = length (filter (\<lambda>x. P x \<and> f x = k') ?rest)"
    if "k' \<in> set ks" for k'
  proof -
    from that Cons.prems have "k' \<noteq> k" by auto
    then have "filter (\<lambda>x. P x \<and> f x = k') ?rest = filter (\<lambda>x. P x \<and> f x = k') xs"
      by (auto intro: filter_cong)
    then show ?thesis by simp
  qed
  have "(\<Sum>k'\<leftarrow>ks. int (length (filter (\<lambda>x. P x \<and> f x = k') xs)))
      = (\<Sum>k'\<leftarrow>ks. int (length (filter (\<lambda>x. P x \<and> f x = k') ?rest)))"
    by (rule arg_cong [where f = sum_list], rule map_cong) (simp_all add: same)
  also have "\<dots> \<le> int (length ?rest)"
    using Cons.prems by (intro Cons.IH) simp
  finally have rest: "(\<Sum>k'\<leftarrow>ks. int (length (filter (\<lambda>x. P x \<and> f x = k') xs))) \<le> int (length ?rest)" .
  have "length (filter (\<lambda>x. P x \<and> f x = k) xs) \<le> length (filter (\<lambda>x. f x = k) xs)"
    by (induction xs) auto
  moreover have "length (filter (\<lambda>x. f x = k) xs) + length ?rest = length xs"
    by (rule sum_length_filter_compl)
  ultimately show ?case
    using rest by simp
qed

lemma royals_in_total:
  assumes "distinct ks"
  shows "(\<Sum>s\<leftarrow>ks. royals_in cs s) \<le> int (length cs)"
  unfolding royals_in_def
  using count_partition [OF assms, of "\<lambda>c. rank c \<in> {1, 10, 11, 12, 13}" suit cs] .

lemma rank_count_total:
  assumes "distinct ks"
  shows "(\<Sum>k\<leftarrow>ks. rank_count cs k) \<le> int (length cs)"
  unfolding rank_count_def
  using count_partition [OF assms, of "\<lambda>c. True" rank cs] by simp

lemma royals_in_nonneg: "0 \<le> royals_in cs s"
  by (simp add: royals_in_def)

lemma rank_count_nonneg: "0 \<le> rank_count cs k"
  by (simp add: rank_count_def)

subsection \<open>Sums with one term that is not zero\<close>

lemma sum_list_all_zero:
  fixes g :: "int \<Rightarrow> rat"
  assumes "\<forall>k\<in>set ks. g k = 0"
  shows "sum_list (map g ks) = 0"
  using assms by (induction ks) simp_all

lemma sum_list_single:
  fixes g :: "int \<Rightarrow> rat"
  assumes "distinct ks" and "k0 \<in> set ks" and "\<forall>k\<in>set ks. k \<noteq> k0 \<longrightarrow> g k = 0"
  shows "sum_list (map g ks) = g k0"
  using assms
proof (induction ks)
  case Nil
  then show ?case by simp
next
  case (Cons k ks)
  show ?case
  proof (cases "k = k0")
    case True
    with Cons.prems have "\<forall>j\<in>set ks. g j = 0" by auto
    then have "sum_list (map g ks) = 0" by (rule sum_list_all_zero)
    with True show ?thesis by simp
  next
    case False
    with Cons.prems have "g k = 0" and "k0 \<in> set ks" and "distinct ks"
      and "\<forall>j\<in>set ks. j \<noteq> k0 \<longrightarrow> g j = 0"
      by auto
    with Cons.IH show ?thesis by simp
  qed
qed

subsection \<open>The formulae are probabilities when the visible cards are distinct\<close>

lemma royal_formula_nonneg: "0 \<le> royal_formula board hole"
  unfolding royal_formula_def by (rule sum_list_nonneg) (auto simp: royal_term_nonneg)

lemma quads_formula_nonneg: "0 \<le> quads_formula board hole"
  unfolding quads_formula_def by (rule sum_list_nonneg) (auto simp: quads_term_nonneg)

lemma royal_formula_le_1:
  assumes "length board \<le> 5" and "length hole = 2" and "distinct (board @ hole)"
  shows "royal_formula board hole \<le> 1"
proof -
  let ?bl = "int (length board)"
  let ?r = "royals_in (board @ hole)"
  let ?g = "\<lambda>s. royal_term ?bl (?r s)"
  have bl: "0 \<le> ?bl" "?bl \<le> 5"
    using assms(1) by simp_all
  show ?thesis
  proof (cases "\<exists>s\<in>set [1, 2, 3, 4]. ?r s = 5")
    case True
    then obtain s0 where s0: "s0 \<in> set [1, 2, 3, 4]" "?r s0 = 5"
      by blast
    have "?g s = 0" if "s \<noteq> s0" for s
    proof -
      from that have "distinct [s0, s]" by simp
      from royals_in_total [OF this, of "board @ hole"] have "?r s0 + ?r s \<le> ?bl + 2"
        using assms(2) by simp
      with s0(2) have "?r s < ?bl" by simp
      then show ?thesis by (rule royal_term_zero)
    qed
    then have "\<forall>s\<in>set [1, 2, 3, 4]. s \<noteq> s0 \<longrightarrow> ?g s = 0"
      by blast
    with s0(1) have "sum_list (map ?g [1, 2, 3, 4]) = ?g s0"
      by (intro sum_list_single) simp_all
    then show ?thesis
      using s0(2) royal_term_full [OF bl] by (simp add: royal_formula_def)
  next
    case False
    have "?g s \<le> 1 / 4" if "s \<in> set [1, 2, 3, 4]" for s
    proof -
      have "?r s \<le> 5" using assms(3) by (rule royals_in_le_5)
      moreover have "?r s \<noteq> 5" using False that by blast
      ultimately have "?r s \<le> 4" by simp
      with bl royals_in_nonneg show ?thesis by (intro royal_term_small)
    qed
    then have "?g 1 \<le> 1 / 4" "?g 2 \<le> 1 / 4" "?g 3 \<le> 1 / 4" "?g 4 \<le> 1 / 4"
      by simp_all
    then show ?thesis
      by (simp add: royal_formula_def)
  qed
qed

lemma sum_list_affine:
  fixes c :: "int \<Rightarrow> int"
  shows "(\<Sum>k\<leftarrow>ks. (1 + rat_of_int (c k)) / 20)
           = (rat_of_nat (length ks) + rat_of_int (\<Sum>k\<leftarrow>ks. c k)) / 20"
  by (induction ks) (simp_all add: add_divide_distrib)

lemma quads_formula_le_1:
  assumes "length board \<le> 5" and "length hole = 2" and "distinct (board @ hole)"
    and "\<forall>c\<in>set (board @ hole). suit c \<in> {1, 2, 3, 4}"
  shows "quads_formula board hole \<le> 1"
proof -
  let ?ks = "[1, 2, 3, 4, 5, 6, 7, 8, 9, 10, 11, 12, 13 :: int]"
  let ?bl = "int (length board)"
  let ?c = "rank_count (board @ hole)"
  let ?g = "\<lambda>k. quads_term ?bl (?c k)"
  have bl: "0 \<le> ?bl" "?bl \<le> 5"
    using assms(1) by simp_all
  have ks: "distinct ?ks" by simp
  show ?thesis
  proof (cases "\<exists>k\<in>set ?ks. ?c k = 4")
    case True
    then obtain k0 where k0: "k0 \<in> set ?ks" "?c k0 = 4"
      by blast
    have "?g k = 0" if "k \<noteq> k0" for k
    proof -
      from that have "distinct [k0, k]" by simp
      from rank_count_total [OF this, of "board @ hole"] have "?c k0 + ?c k \<le> ?bl + 2"
        using assms(2) by simp
      with k0(2) have "?c k < ?bl - 1" by simp
      then show ?thesis by (rule quads_term_zero)
    qed
    then have "\<forall>k\<in>set ?ks. k \<noteq> k0 \<longrightarrow> ?g k = 0"
      by blast
    with ks k0(1) have "sum_list (map ?g ?ks) = ?g k0"
      by (rule sum_list_single)
    then show ?thesis
      using k0(2) quads_term_full [OF bl] by (simp only: quads_formula_def)
  next
    case False
    have small: "?g k \<le> (1 + rat_of_int (?c k)) / 20" if "k \<in> set ?ks" for k
    proof -
      have "?c k \<le> 4" using assms(3,4) by (rule rank_count_le_4)
      moreover have "?c k \<noteq> 4" using False that by blast
      ultimately have "?c k \<le> 3" by simp
      with bl rank_count_nonneg show ?thesis by (intro quads_term_small)
    qed
    have "sum_list (map ?g ?ks) \<le> (\<Sum>k\<leftarrow>?ks. (1 + rat_of_int (?c k)) / 20)"
      by (rule sum_list_mono) (rule small)
    also have "\<dots> = (rat_of_nat (length ?ks) + rat_of_int (\<Sum>k\<leftarrow>?ks. ?c k)) / 20"
      by (rule sum_list_affine)
    also have "\<dots> \<le> (13 + rat_of_int (?bl + 2)) / 20"
    proof -
      have "(\<Sum>k\<leftarrow>?ks. ?c k) \<le> ?bl + 2"
        using rank_count_total [OF ks, of "board @ hole"] assms(2) by simp
      then have "rat_of_int (\<Sum>k\<leftarrow>?ks. ?c k) \<le> rat_of_int (?bl + 2)"
        by (simp only: of_int_le_iff)
      then show ?thesis
        by (simp add: divide_right_mono)
    qed
    also have "\<dots> \<le> 1"
    proof -
      have "rat_of_int (?bl + 2) \<le> 7"
        using bl(2) by simp
      then show ?thesis by simp
    qed
    finally show ?thesis
      by (simp only: quads_formula_def)
  qed
qed

text \<open>
  Claim C1. For a board of 0 to 5 cards and a hole of 2 cards (suits 1-4),
  \<open>royal_probability\<close> returns the sum over the four suits of
  \<open>C(52 - known - (5 - royals), (5 - board_len) - (5 - royals)) / C(52 - known, 5 - board_len)\<close>,
  \<open>known = board_len + 2\<close>, for the suits whose number \<open>royals\<close> of visible royal-rank
  cards is at least \<open>board_len\<close>, and 0 for the other suits.
\<close>

theorem C1_royal_probability_formula:
  assumes "length board \<le> 5" and "length hole = 2"
    and "\<forall>c\<in>set (board @ hole). suit c \<in> {1, 2, 3, 4}"
  shows "HoleCards_init hole = Inr (hole_of hole) \<and>
         royal_probability (Hand_init board) (hole_of hole) = Inr (royal_formula board hole)"
  using assms(2) royal_probability_eq [OF assms]
  by (simp add: HoleCards_init_def)

text \<open>C1 on the board A, 10, J of Hearts with the hole Q of Hearts, K of Diamonds: 46/1081.\<close>

theorem C1_royal_probability_formula_witness:
  "royal_probability
     (Hand_init [\<lparr>suit = 1, rank = 1\<rparr>, \<lparr>suit = 1, rank = 10\<rparr>, \<lparr>suit = 1, rank = 11\<rparr>])
     (hole_of [\<lparr>suit = 1, rank = 12\<rparr>, \<lparr>suit = 2, rank = 13\<rparr>])
   = Inr (royal_formula [\<lparr>suit = 1, rank = 1\<rparr>, \<lparr>suit = 1, rank = 10\<rparr>, \<lparr>suit = 1, rank = 11\<rparr>]
                        [\<lparr>suit = 1, rank = 12\<rparr>, \<lparr>suit = 2, rank = 13\<rparr>])
   \<and> royal_formula [\<lparr>suit = 1, rank = 1\<rparr>, \<lparr>suit = 1, rank = 10\<rparr>, \<lparr>suit = 1, rank = 11\<rparr>]
                    [\<lparr>suit = 1, rank = 12\<rparr>, \<lparr>suit = 2, rank = 13\<rparr>] = 46 / 1081"
proof -
  let ?b = "[\<lparr>suit = 1, rank = 1\<rparr>, \<lparr>suit = 1, rank = 10\<rparr>, \<lparr>suit = 1, rank = 11\<rparr>]"
  let ?h = "[\<lparr>suit = 1, rank = 12\<rparr>, \<lparr>suit = 2, rank = 13\<rparr>]"
  have 1: "length ?b \<le> 5" and 2: "length ?h = 2"
    and 3: "\<forall>c\<in>set (?b @ ?h). suit c \<in> {1, 2, 3, 4}"
    by simp_all
  have "royal_formula ?b ?h = 46 / 1081"
    by (simp add: royal_formula_def royals_in_def royal_term_def choose_values)
  with C1_royal_probability_formula [OF 1 2 3] show ?thesis
    by simp
qed

text \<open>
  Claim C2 says that on an empty board with the hole 10 and J of Hearts the result is
  \<open>C(47,2) / C(50,5)\<close>, the three other suits adding nothing. It is not: with
  \<open>board_len = 0\<close> every suit passes the guard \<open>royals \<ge> board_len\<close>.
\<close>

theorem C2_other_suits_counterexample:
  "HoleCards_init [\<lparr>suit = 1, rank = 10\<rparr>, \<lparr>suit = 1, rank = 11\<rparr>]
     = Inr (hole_of [\<lparr>suit = 1, rank = 10\<rparr>, \<lparr>suit = 1, rank = 11\<rparr>]) \<and>
   royal_probability (Hand_init []) (hole_of [\<lparr>suit = 1, rank = 10\<rparr>, \<lparr>suit = 1, rank = 11\<rparr>])
     \<noteq> Inr (of_nat (47 choose 2) / of_nat (50 choose 5))"
proof -
  let ?h = "[\<lparr>suit = 1, rank = 10\<rparr>, \<lparr>suit = 1, rank = 11\<rparr>]"
  have "royal_probability (Hand_init []) (hole_of ?h) = Inr (royal_formula [] ?h)"
    by (rule royal_probability_eq) simp_all
  moreover have "royal_formula [] ?h = 1084 / 2118760"
    by (simp add: royal_formula_def royals_in_def royal_term_def choose_values)
  ultimately show ?thesis
    by (simp add: HoleCards_init_def choose_values)
qed

text \<open>
  Claim C2, amended. On an empty board with the hole 10 and J of Hearts the result is
  \<open>C(47,2) / C(50,5) + 3 * (C(45,0) / C(50,5))\<close>: Hearts adds \<open>C(47,2) / C(50,5)\<close> and each
  of the three other suits, with no royal card visible, adds \<open>C(45,0) / C(50,5)\<close>.
\<close>

theorem C2_empty_board_ten_jack_of_hearts:
  "HoleCards_init [\<lparr>suit = 1, rank = 10\<rparr>, \<lparr>suit = 1, rank = 11\<rparr>]
     = Inr (hole_of [\<lparr>suit = 1, rank = 10\<rparr>, \<lparr>suit = 1, rank = 11\<rparr>]) \<and>
   royal_probability (Hand_init []) (hole_of [\<lparr>suit = 1, rank = 10\<rparr>, \<lparr>suit = 1, rank = 11\<rparr>])
     = Inr (of_nat (47 choose 2) / of_nat (50 choose 5)
            + 3 * (of_nat (45 choose 0) / of_nat (50 choose 5)))"
proof -
  let ?h = "[\<lparr>suit = 1, rank = 10\<rparr>, \<lparr>suit = 1, rank = 11\<rparr>]"
  have "royal_probability (Hand_init []) (hole_of ?h) = Inr (royal_formula [] ?h)"
    by (rule royal_probability_eq) simp_all
  moreover have "royal_formula [] ?h = 1084 / 2118760"
    by (simp add: royal_formula_def royals_in_def royal_term_def choose_values)
  ultimately show ?thesis
    by (simp add: HoleCards_init_def choose_values)
qed

lemma count_distinct_le_1:
  assumes "distinct (map f xs)"
  shows "length (filter (\<lambda>x. f x = k) xs) \<le> 1"
  using assms
proof (induction xs)
  case Nil
  show ?case by simp
next
  case (Cons x xs)
  show ?case
  proof (cases "f x = k")
    case True
    from Cons.prems have "f x \<notin> f ` set xs" by simp
    then have "\<forall>y\<in>set xs. f y \<noteq> f x" by (metis imageI)
    with True have "\<forall>y\<in>set xs. f y \<noteq> k" by simp
    then have "filter (\<lambda>y. f y = k) xs = []" by (simp add: filter_empty_conv)
    with True show ?thesis by simp
  next
    case False
    with Cons show ?thesis by simp
  qed
qed

text \<open>
  Claim C3. On a 4-card board with exactly three Aces and a 2-card hole whose ranks
  differ from each other and from every rank on the board, \<open>quads_prob\<close> returns
  \<open>C(45,0) / C(46,1) = 1/46\<close>.
\<close>

theorem C3_three_aces_on_board:
  assumes "length board = 4" and "length (filter (\<lambda>c. rank c = 1) board) = 3"
    and "length hole = 2" and "distinct (map rank hole)"
    and "\<forall>c\<in>set hole. rank c \<notin> rank ` set board"
    and "\<forall>c\<in>set (board @ hole). rank c \<in> {1 .. 13}"
  shows "quads_prob (Hand_init board) (hole_of hole)
           = Inr (of_nat (45 choose 0) / of_nat (46 choose 1)) \<and>
         (of_nat (45 choose 0) / of_nat (46 choose 1) :: rat) = 1 / 46"
proof -
  let ?ks = "[1, 2, 3, 4, 5, 6, 7, 8, 9, 10, 11, 12, 13 :: int]"
  let ?c = "rank_count (board @ hole)"
  let ?g = "\<lambda>k. quads_term (int (length board)) (?c k)"
  have eq: "quads_prob (Hand_init board) (hole_of hole) = Inr (quads_formula board hole)"
    using assms(1,3,6) by (intro quads_prob_eq) simp_all
  have hole_absent: "rank_count hole k = 0" if "0 < rank_count board k" for k
  proof -
    from that have "filter (\<lambda>c. rank c = k) board \<noteq> []"
      by (auto simp: rank_count_def)
    then have "k \<in> rank ` set board"
      by (auto simp: filter_empty_conv)
    with assms(5) have "\<forall>c\<in>set hole. rank c \<noteq> k" by auto
    then show ?thesis
      unfolding rank_count_def by (simp add: filter_empty_conv)
  qed
  have board_aces: "rank_count board 1 = 3"
    using assms(2) by (simp add: rank_count_def)
  then have aces: "?c 1 = 3"
    using hole_absent [of 1] by (simp add: rank_count_append)
  have others: "?c k \<le> 1" if "k \<noteq> 1" for k
  proof -
    from that have "distinct [1, k]" by simp
    from rank_count_total [OF this, of board] have b: "rank_count board k \<le> 1"
      using board_aces assms(1) by simp
    have h: "rank_count hole k \<le> 1"
      using count_distinct_le_1 [OF assms(4), of k] by (simp add: rank_count_def)
    show ?thesis
    proof (cases "0 < rank_count board k")
      case True
      with hole_absent [of k] b show ?thesis by (simp add: rank_count_append)
    next
      case False
      with rank_count_nonneg [of board k] have "rank_count board k = 0" by simp
      with h show ?thesis by (simp add: rank_count_append)
    qed
  qed
  have zero: "\<forall>k\<in>set ?ks. k \<noteq> 1 \<longrightarrow> ?g k = 0"
  proof (intro ballI impI)
    fix k :: int
    assume "k \<noteq> 1"
    then have "?c k < int (length board) - 1"
      using others [of k] assms(1) by simp
    then show "?g k = 0" by (rule quads_term_zero)
  qed
  have "sum_list (map ?g ?ks) = ?g 1"
    by (rule sum_list_single [OF _ _ zero]) simp_all
  also have "\<dots> = quads_term 4 3"
    using aces assms(1) by simp
  also have "\<dots> = of_nat (45 choose 0) / of_nat (46 choose 1)"
    by (simp add: quads_term_def)
  finally have "quads_formula board hole = of_nat (45 choose 0) / of_nat (46 choose 1)"
    by (simp only: quads_formula_def)
  with eq show ?thesis by simp
qed

text \<open>C3 on the board A, 7, A, A with the hole 2, 9.\<close>

theorem C3_three_aces_on_board_witness:
  "quads_prob (Hand_init [\<lparr>suit = 1, rank = 1\<rparr>, \<lparr>suit = 4, rank = 7\<rparr>, \<lparr>suit = 2, rank = 1\<rparr>,
                          \<lparr>suit = 3, rank = 1\<rparr>])
              (hole_of [\<lparr>suit = 1, rank = 2\<rparr>, \<lparr>suit = 2, rank = 9\<rparr>]) = Inr (1 / 46)"
proof -
  let ?b = "[\<lparr>suit = 1, rank = 1\<rparr>, \<lparr>suit = 4, rank = 7\<rparr>, \<lparr>suit = 2, rank = 1\<rparr>, \<lparr>suit = 3, rank = 1\<rparr>]"
  let ?h = "[\<lparr>suit = 1, rank = 2\<rparr>, \<lparr>suit = 2, rank = 9\<rparr>]"
  have 1: "length ?b = 4" and 2: "length (filter (\<lambda>c. rank c = 1) ?b) = 3"
    and 3: "length ?h = 2" and 4: "distinct (map rank ?h)"
    and 5: "\<forall>c\<in>set ?h. rank c \<notin> rank ` set ?b"
    and 6: "\<forall>c\<in>set (?b @ ?h). rank c \<in> {1 .. 13}"
    by simp_all
  from C3_three_aces_on_board [OF 1 2 3 4 5 6] show ?thesis
    by simp
qed

text \<open>
  Claim C4. For every legal board (0 to 5 cards) and every 2-card hole, dealt from
  one deck (the cards pairwise distinct, suit 1-4, rank 1-13), \<open>royal_probability\<close>
  and \<open>quads_prob\<close> each return a value in [0,1]; so the sum over the 13 ranks that
  \<open>quads_prob\<close> computes never exceeds 1.
\<close>

theorem C4_probabilities_for_distinct_cards:
  assumes "length board \<le> 5" and "length hole = 2"
    and "distinct (board @ hole)" and "\<forall>c\<in>set (board @ hole). valid_card c"
  shows "\<exists>p q. royal_probability (Hand_init board) (hole_of hole) = Inr p \<and> 0 \<le> p \<and> p \<le> 1 \<and>
               quads_prob (Hand_init board) (hole_of hole) = Inr q \<and> 0 \<le> q \<and> q \<le> 1"
proof -
  have suits: "\<forall>c\<in>set (board @ hole). suit c \<in> {1, 2, 3, 4}"
  proof
    fix c assume "c \<in> set (board @ hole)"
    with assms(4) have "1 \<le> suit c" "suit c \<le> 4" by (auto simp: valid_card_def)
    then show "suit c \<in> {1, 2, 3, 4}" by (simp only: insert_iff empty_iff) arith
  qed
  have ranks: "\<forall>c\<in>set (board @ hole). rank c \<in> {1 .. 13}"
    using assms(4) by (auto simp: valid_card_def)
  have "royal_probability (Hand_init board) (hole_of hole) = Inr (royal_formula board hole)"
    using assms(1,2) suits by (rule royal_probability_eq)
  moreover have "quads_prob (Hand_init board) (hole_of hole) = Inr (quads_formula board hole)"
    using assms(1,2) ranks by (rule quads_prob_eq)
  moreover have "royal_formula board hole \<le> 1"
    using assms(1,2,3) by (rule royal_formula_le_1)
  moreover have "quads_formula board hole \<le> 1"
    using assms(1,2,3) suits by (rule quads_formula_le_1)
  ultimately show ?thesis
    using royal_formula_nonneg [of board hole] quads_formula_nonneg [of board hole] by blast
qed

text \<open>C4 on the royal flush in Hearts with the hole A, 2 of Diamonds.\<close>

theorem C4_probabilities_for_distinct_cards_witness:
  "\<exists>p q. royal_probability
           (Hand_init [\<lparr>suit = 1, rank = 1\<rparr>, \<lparr>suit = 1, rank = 10\<rparr>, \<lparr>suit = 1, rank = 11\<rparr>,
                       \<lparr>suit = 1, rank = 12\<rparr>, \<lparr>suit = 1, rank = 13\<rparr>])
           (hole_of [\<lparr>suit = 2, rank = 1\<rparr>, \<lparr>suit = 2, rank = 2\<rparr>]) = Inr p \<and> 0 \<le> p \<and> p \<le> 1 \<and>
         quads_prob
           (Hand_init [\<lparr>suit = 1, rank = 1\<rparr>, \<lparr>suit = 1, rank = 10\<rparr>, \<lparr>suit = 1, rank = 11\<rparr>,
                       \<lparr>suit = 1, rank = 12\<rparr>, \<lparr>suit = 1, rank = 13\<rparr>])
           (hole_of [\<lparr>suit = 2, rank = 1\<rparr>, \<lparr>suit = 2, rank = 2\<rparr>]) = Inr q \<and> 0 \<le> q \<and> q \<le> 1"
proof -
  let ?b = "[\<lparr>suit = 1, rank = 1\<rparr>, \<lparr>suit = 1, rank = 10\<rparr>, \<lparr>suit = 1, rank = 11\<rparr>,
             \<lparr>suit = 1, rank = 12\<rparr>, \<lparr>suit = 1, rank = 13\<rparr>]"
  let ?h = "[\<lparr>suit = 2, rank = 1\<rparr>, \<lparr>suit = 2, rank = 2\<rparr>]"
  have 1: "length ?b \<le> 5" and 2: "length ?h = 2" and 3: "distinct (?b @ ?h)"
    and 4: "\<forall>c\<in>set (?b @ ?h). valid_card c"
    by (simp_all add: valid_card_def)
  from C4_probabilities_for_distinct_cards [OF 1 2 3 4] show ?thesis .
qed

end
